theory Spec2Isabelle
  imports Main "HOL-Library.Word"
begin

unbundle bit_operations_syntax

section \<open>Data model of the arena (src/core/SkArenaAlloc.cpp)\<close>

text \<open>
  The translation unit is modelled for an LP64 target: \<open>char*\<close>, \<open>ptrdiff_t\<close>,
  \<open>size_t\<close> and \<open>uintptr_t\<close> are 8 bytes wide, \<open>uint32_t\<close> is a \<open>32 word\<close> (its
  arithmetic wraps), the one-byte padding count is an \<open>8 word\<close>.

  Addresses (\<open>char*\<close>) are integers, the null pointer is 0. Pointer arithmetic is exact
  on integers: C++ gives it no meaning outside an object, so no wrap-around is modelled
  for it. The alignment masks of the source act on the address's value.
\<close>

type_synonym u8 = "8 word"
type_synonym u32 = "32 word"
type_synonym addr = int

text \<open>
  A \<open>FooterAction*\<close> is a function pointer. The source has three fixed actions
  (\<open>end_chain\<close>, \<open>SkipPod\<close>, \<open>NextBlock\<close>) and one releaser per destructible type that
  is instantiated in the header; a releaser is identified by the \<open>sizeof\<close> of its type,
  which is all that its address computation uses.
\<close>

datatype action = FnEndChain | FnSkipPod | FnNextBlock | FnReleaser nat

text \<open>
  Memory holds what \<open>installRaw\<close> copied into it, one cell per copied value, keyed
  by the address of its first byte. A cell occupies \<open>cell_size\<close> bytes.
\<close>

datatype cell = Action action | Pad u8 | U32 u32 | Ptr addr

fun cell_size :: "cell \<Rightarrow> int" where
  "cell_size (Action a) = 8"
| "cell_size (Pad p) = 1"
| "cell_size (U32 w) = 4"
| "cell_size (Ptr p) = 8"

type_synonym memory = "addr \<Rightarrow> cell option"

text \<open>
  What the program does that can be observed from outside: a destructor call on the
  object at an address, a \<open>delete []\<close> of a block, and (as instrumentation only, the
  function itself has no effect) a call of \<open>end_chain\<close> at a footer end.
\<close>

datatype event = Destructed addr | Deleted addr | EndOfChain addr

text \<open>
  The machine around the arena: the memory, the blocks that \<open>new char[n]\<close> has handed
  out and that are still live (base and length, newest first), the memory regions that
  belong to the caller (such as a caller-supplied first block), and the trace of events.
\<close>

record machine =
  mem :: memory
  heap :: "(addr \<times> int) list"
  extern :: "(addr \<times> int) list"
  events :: "event list"

record arena =
  fDtorCursor :: addr
  fCursor :: addr
  fEnd :: addr
  fNextHeapAlloc :: u32
  fYetNextHeapAlloc :: u32

datatype error = Abort | AssertFailed | OutOfMemory | UndefinedBehaviour | OutOfFuel

text \<open>\<open>sizeof(char*)\<close>, \<open>sizeof(ptrdiff_t)\<close> and \<open>sizeof(FooterAction*)\<close> on LP64.\<close>

definition ptr_size :: nat where
  "ptr_size = 8"

text \<open>
  Modelled from the spec: the declaration of \<open>Footer\<close> is in SkArenaAlloc.h, which is
  not part of the sources. The spec describes the footer record as "an action reference
  and a one-byte padding count", which is also what \<open>installFooter\<close> writes and what
  \<open>RunDtorsOnBlock\<close> reads back: \<open>sizeof(Footer)\<close> is the pointer size plus one.
\<close>

definition footer_size :: nat where
  "footer_size = ptr_size + 1"

section \<open>Memory and the system allocator\<close>

text \<open>
  Copying a value to address \<open>a\<close> replaces the cell at \<open>a\<close> and destroys every cell
  whose bytes overlap the bytes written. The \<open>n\<close> bytes from \<open>a\<close> overlap the \<open>k\<close> bytes
  from \<open>b\<close> when the two ranges have a byte in common.
\<close>

definition overlaps :: "addr \<Rightarrow> int \<Rightarrow> addr \<Rightarrow> int \<Rightarrow> bool" where
  "overlaps a n b k \<longleftrightarrow> max a b < min (a + n) (b + k)"

definition store :: "addr \<Rightarrow> cell \<Rightarrow> memory \<Rightarrow> memory" where
  "store a c mm =
     (\<lambda>b. if b = a then Some c
          else (case mm b of
                  None \<Rightarrow> None
                | Some d \<Rightarrow> if overlaps a (cell_size c) b (cell_size d) then None else Some d))"

text \<open>Writing \<open>n\<close> bytes of object data at \<open>a\<close> destroys every cell it overlaps.\<close>

definition clobber :: "addr \<Rightarrow> int \<Rightarrow> memory \<Rightarrow> memory" where
  "clobber a n mm =
     (\<lambda>b. case mm b of
             None \<Rightarrow> None
           | Some d \<Rightarrow> if overlaps a n b (cell_size d) then None else Some d)"

definition disjoint_from :: "addr \<Rightarrow> int \<Rightarrow> (addr \<times> int) list \<Rightarrow> bool" where
  "disjoint_from a n rs \<longleftrightarrow> list_all (\<lambda>(b, k). a + n \<le> b \<or> b + k \<le> a) rs"

text \<open>
  \<open>new char[n]\<close>. Which block the system allocator returns is the environment's choice
  \<open>nb\<close>; it is a block of \<open>n\<close> bytes that is not null and overlaps no live block and
  no memory of the caller. Any other outcome is an allocation failure, which the spec
  treats as fatal.
\<close>

definition new_char :: "u32 \<Rightarrow> addr \<Rightarrow> machine \<Rightarrow> error + (addr \<times> machine)" where
  "new_char n nb m =
     (if 0 < nb \<and> disjoint_from nb (uint n) (heap m) \<and> disjoint_from nb (uint n) (extern m)
      then Inr (nb, m\<lparr>heap := (nb, uint n) # heap m\<rparr>)
      else Inl OutOfMemory)"

text \<open>
  \<open>delete [] p\<close>: \<open>p\<close> must be the base of a live block that \<open>new char[n]\<close> returned;
  the block stops being live.
\<close>

definition delete_array :: "addr \<Rightarrow> machine \<Rightarrow> error + machine" where
  "delete_array p m =
     (if p \<in> fst ` set (heap m)
      then Inr (m\<lparr>heap := filter (\<lambda>r. fst r \<noteq> p) (heap m), events := events m @ [Deleted p]\<rparr>)
      else Inl UndefinedBehaviour)"

section \<open>Helpers declared in the header\<close>

text \<open>
  Modelled from the spec: \<open>AssertRelease\<close> is defined in SkArenaAlloc.h. The spec calls
  it "an immediate fatal assertion even in optimized builds": the process aborts when
  the condition is false, in every build.
\<close>

definition AssertRelease :: "bool \<Rightarrow> error + unit" where
  "AssertRelease cond = (if cond then Inr () else Inl Abort)"

text \<open>
  Lines 152-155, \<open>to_uint32_t\<close>: an \<open>assert\<close> that the value fits, and a cast. An
  \<open>assert\<close> that fails is the outcome \<open>AssertFailed\<close>: the spec calls such assertions
  caller contracts, and this model does not describe a run that goes past one.
\<close>

definition to_uint32_t :: "int \<Rightarrow> error + u32" where
  "to_uint32_t v = (if 0 \<le> v \<and> v < 2 ^ 32 then Inr (word_of_int v) else Inl AssertFailed)"

text \<open>
  Modelled from the spec: \<open>ToU32\<close> is defined in SkArenaAlloc.h. It is taken to be the
  checked narrowing that \<open>to_uint32_t\<close> of the source file is.
\<close>

definition ToU32 :: "int \<Rightarrow> error + u32" where
  "ToU32 v = to_uint32_t v"

text \<open>
  Modelled from the spec: \<open>installRaw\<close> is a template in SkArenaAlloc.h. Footer records
  are "always written immediately after the bytes it describes, growing the used region
  forward": the value is copied to the cursor and the cursor moves past it.
\<close>

definition installRaw :: "cell \<Rightarrow> arena \<times> machine \<Rightarrow> arena \<times> machine" where
  "installRaw val = (\<lambda>(st, m).
     (st\<lparr>fCursor := fCursor st + cell_size val\<rparr>,
      m\<lparr>mem := store (fCursor st) val (mem m)\<rparr>))"

section \<open>The functions of SkArenaAlloc.cpp\<close>

text \<open>Line 12: \<open>end_chain\<close> returns the null pointer.\<close>

definition end_chain :: "addr \<Rightarrow> machine \<Rightarrow> addr \<times> machine" where
  "end_chain footerEnd m = (0, m\<lparr>events := events m @ [EndOfChain footerEnd]\<rparr>)"

text \<open>Lines 14-17.\<close>

definition first_allocated_block :: "u32 \<Rightarrow> u32 \<Rightarrow> u32" where
  "first_allocated_block blockSize firstHeapAllocation =
     (if firstHeapAllocation > 0 then firstHeapAllocation
      else if blockSize > 0 then blockSize else 1024)"

text \<open>Lines 39-44.\<close>

definition installFooter :: "action \<Rightarrow> u32 \<Rightarrow> arena \<times> machine \<Rightarrow> error + (arena \<times> machine)" where
  "installFooter act padding = (\<lambda>sm.
     if \<not> unat padding < 256 then Inl AssertFailed
     else (case installRaw (Pad (ucast padding)) (installRaw (Action act) sm) of
             (st, m) \<Rightarrow> Inr (st\<lparr>fDtorCursor := fCursor st\<rparr>, m)))"

text \<open>Lines 19-33, with the \<open>size_t\<close> arguments as natural numbers (\<open>sz\<close> is the
  source's \<open>size\<close>, a name that HOL has taken).\<close>

definition SkArenaAlloc :: "addr \<Rightarrow> nat \<Rightarrow> nat \<Rightarrow> machine \<Rightarrow> error + (arena \<times> machine)" where
  "SkArenaAlloc block sz firstHeapAllocation m =
     (case ToU32 (int sz) of Inl e \<Rightarrow> Inl e | Inr size32 \<Rightarrow>
      case ToU32 (int firstHeapAllocation) of Inl e \<Rightarrow> Inl e | Inr fha32 \<Rightarrow>
      let next = first_allocated_block size32 fha32;
          st = \<lparr>fDtorCursor = block, fCursor = block, fEnd = block + uint size32,
                fNextHeapAlloc = next, fYetNextHeapAlloc = next\<rparr>;
          st = (if sz < footer_size
                then st\<lparr>fEnd := 0, fCursor := 0, fDtorCursor := 0\<rparr> else st)
      in if fCursor st \<noteq> 0 then installFooter FnEndChain 0 (st, m) else Inr (st, m))"

text \<open>
  Lines 75-103 of \<open>ensureSpace\<close>: the size of the new block and the advance of the two
  growth counters. \<open>maxSize\<close> is \<open>-1\<close> on 32 bits; \<open>headerSize\<close> and \<open>overhead\<close> are the
  source's constants.
\<close>

definition maxSize :: u32 where
  "maxSize = - 1"

definition headerSize :: u32 where
  "headerSize = of_nat (footer_size + ptr_size)"

definition overhead :: u32 where
  "overhead = headerSize + of_nat footer_size"

definition ensureSpace_size :: "u32 \<Rightarrow> u32 \<Rightarrow> arena \<Rightarrow> error + (u32 \<times> arena)" where
  "ensureSpace_size sz alignment st =
     (case AssertRelease (sz \<le> maxSize - overhead) of Inl e \<Rightarrow> Inl e | Inr _ \<Rightarrow>
      let objSizeAndOverhead = sz + overhead;
          alignmentOverhead = alignment - 1
      in case AssertRelease (objSizeAndOverhead \<le> maxSize - alignmentOverhead) of
           Inl e \<Rightarrow> Inl e | Inr _ \<Rightarrow>
      let objSizeAndOverhead = objSizeAndOverhead + alignmentOverhead;
          minAllocationSize = fNextHeapAlloc st;
          st = (if fYetNextHeapAlloc st \<le> maxSize - fNextHeapAlloc st
                then st\<lparr>fNextHeapAlloc := fYetNextHeapAlloc st,
                        fYetNextHeapAlloc := fNextHeapAlloc st + fYetNextHeapAlloc st\<rparr>
                else st\<lparr>fNextHeapAlloc := maxSize\<rparr>);
          allocationSize = max objSizeAndOverhead minAllocationSize;
          mask = (if allocationSize > 2 ^ 15 then 2 ^ 12 - 1 else 16 - 1)
      in case AssertRelease (allocationSize \<le> maxSize - mask) of Inl e \<Rightarrow> Inl e | Inr _ \<Rightarrow>
         Inr ((allocationSize + mask) AND NOT mask, st))"

text \<open>
  \<open>ensureSpace\<close>, lines 75-113: the block of the computed size is taken from the system
  allocator, becomes the active block, and starts with the old \<open>fDtorCursor\<close> and a
  \<open>NextBlock\<close> footer.
\<close>

definition ensureSpace :: "u32 \<Rightarrow> u32 \<Rightarrow> addr \<Rightarrow> arena \<times> machine \<Rightarrow> error + (arena \<times> machine)" where
  "ensureSpace sz alignment nb = (\<lambda>(st, m).
     case ensureSpace_size sz alignment st of Inl e \<Rightarrow> Inl e | Inr (allocationSize, st) \<Rightarrow>
     case new_char allocationSize nb m of Inl e \<Rightarrow> Inl e | Inr (newBlock, m) \<Rightarrow>
     let previousDtor = fDtorCursor st;
         st = st\<lparr>fCursor := newBlock, fDtorCursor := newBlock,
                 fEnd := newBlock + uint allocationSize\<rparr>
     in installFooter FnNextBlock 0 (installRaw (Ptr previousDtor) (st, m)))"

text \<open>Lines 46-51. The four bytes before the footer are read as an \<open>int32_t\<close>.\<close>

definition SkipPod :: "addr \<Rightarrow> machine \<Rightarrow> error + (addr \<times> machine)" where
  "SkipPod footerEnd m =
     (let objEnd = footerEnd - (int footer_size + 4)
      in case mem m objEnd of
           Some (U32 skip) \<Rightarrow> Inr (objEnd - sint skip, m)
         | _ \<Rightarrow> Inl UndefinedBehaviour)"

text \<open>
  Modelled from the spec: the releaser of a destructible type is a lambda in the header's
  \<open>make\<close>. The spec's Destruct action: "given the end of its footer, compute the
  preceding object's address, invoke its destructor, return the address immediately
  preceding the object". The object of size \<open>n\<close> lies right before its footer; the walk
  goes on from the object's first byte (less the padding, which \<open>RunDtorsOnBlock\<close>
  subtracts).
\<close>

definition releaser :: "nat \<Rightarrow> addr \<Rightarrow> machine \<Rightarrow> addr \<times> machine" where
  "releaser n objEnd m =
     (let objStart = objEnd - (int n + int footer_size)
      in (objStart, m\<lparr>events := events m @ [Destructed objStart]\<rparr>))"

text \<open>
  Lines 53-63 and 65-72. \<open>RunDtorsOnBlock\<close> iterates for as long as the footers say, and
  \<open>NextBlock\<close> calls it again: the first argument bounds the number of iterations
  and nested calls together, and \<open>OutOfFuel\<close> is the outcome when the bound is reached.
  \<open>call_action\<close> is the call through the function pointer read from the footer.
\<close>

fun RunDtorsOnBlock :: "nat \<Rightarrow> addr \<Rightarrow> machine \<Rightarrow> error + machine"
  and call_action :: "nat \<Rightarrow> action \<Rightarrow> addr \<Rightarrow> machine \<Rightarrow> error + (addr \<times> machine)"
  and NextBlock :: "nat \<Rightarrow> addr \<Rightarrow> machine \<Rightarrow> error + (addr \<times> machine)"
where
  "RunDtorsOnBlock 0 footerEnd m = (if footerEnd = 0 then Inr m else Inl OutOfFuel)"
| "RunDtorsOnBlock (Suc fuel) footerEnd m =
     (if footerEnd = 0 then Inr m
      else (case mem m (footerEnd - int footer_size) of
              Some (Action act) \<Rightarrow>
                (case mem m (footerEnd - 1) of
                   Some (Pad padding) \<Rightarrow>
                     (case call_action fuel act footerEnd m of
                        Inl e \<Rightarrow> Inl e
                      | Inr (r, m') \<Rightarrow> RunDtorsOnBlock fuel (r - uint padding) m')
                 | _ \<Rightarrow> Inl UndefinedBehaviour)
            | _ \<Rightarrow> Inl UndefinedBehaviour))"
| "call_action fuel FnEndChain footerEnd m = Inr (end_chain footerEnd m)"
| "call_action fuel FnSkipPod footerEnd m = SkipPod footerEnd m"
| "call_action fuel FnNextBlock footerEnd m = NextBlock fuel footerEnd m"
| "call_action fuel (FnReleaser n) footerEnd m = Inr (releaser n footerEnd m)"
| "NextBlock fuel footerEnd m =
     (let objEnd = footerEnd - (int ptr_size + int footer_size)
      in case mem m objEnd of
           Some (Ptr next) \<Rightarrow>
             (case RunDtorsOnBlock fuel next m of
                Inl e \<Rightarrow> Inl e
              | Inr m' \<Rightarrow>
                  (case delete_array objEnd m' of
                     Inl e \<Rightarrow> Inl e
                   | Inr m'' \<Rightarrow> Inr (0, m'')))
         | _ \<Rightarrow> Inl UndefinedBehaviour)"

text \<open>Lines 35-37, the destructor \<open>~SkArenaAlloc\<close>.\<close>

definition SkArenaAlloc_dtor :: "nat \<Rightarrow> arena \<Rightarrow> machine \<Rightarrow> error + machine" where
  "SkArenaAlloc_dtor fuel st m = RunDtorsOnBlock fuel (fDtorCursor st) m"

text \<open>
  Lines 115-150. \<open>blocks\<close> are the blocks that the system allocator will return, in
  order; every pass through \<open>restart\<close> that calls \<open>ensureSpace\<close> takes one, and the
  system is out of memory when none is left. The blocks not used are returned.
\<close>

fun allocObjectWithFooter ::
  "u32 \<Rightarrow> u32 \<Rightarrow> addr list \<Rightarrow> arena \<times> machine \<Rightarrow> error + (addr \<times> addr list \<times> arena \<times> machine)"
where
  "allocObjectWithFooter sizeIncludingFooter alignment blocks (st, m) =
     (let mask = uint (alignment - 1);
          needsSkipFooter = (fCursor st \<noteq> fDtorCursor st);
          skipOverhead = (if needsSkipFooter then of_nat (footer_size + 4) else 0 :: u32);
          totalSize = sizeIncludingFooter + skipOverhead
      in if fCursor st = 0
         then (case blocks of
                 [] \<Rightarrow> Inl OutOfMemory
               | nb # blocks' \<Rightarrow>
                   (case ensureSpace totalSize alignment nb (st, m) of
                      Inl e \<Rightarrow> Inl e
                    | Inr sm' \<Rightarrow> allocObjectWithFooter sizeIncludingFooter alignment blocks' sm'))
         else
           let objStart = (fCursor st + uint skipOverhead + mask) AND NOT mask
           in if uint totalSize > fEnd st - objStart
              then (case blocks of
                      [] \<Rightarrow> Inl OutOfMemory
                    | nb # blocks' \<Rightarrow>
                        (case ensureSpace totalSize alignment nb (st, m) of
                           Inl e \<Rightarrow> Inl e
                         | Inr sm' \<Rightarrow>
                             allocObjectWithFooter sizeIncludingFooter alignment blocks' sm'))
              else (case AssertRelease (uint totalSize \<le> fEnd st - objStart) of
                      Inl e \<Rightarrow> Inl e
                    | Inr _ \<Rightarrow>
                        if needsSkipFooter
                        then (case ToU32 (fCursor st - fDtorCursor st) of
                                Inl e \<Rightarrow> Inl e
                              | Inr d \<Rightarrow>
                                  (case installFooter FnSkipPod 0 (installRaw (U32 d) (st, m)) of
                                     Inl e \<Rightarrow> Inl e
                                   | Inr sm' \<Rightarrow> Inr (objStart, blocks, sm')))
                        else Inr (objStart, blocks, st, m)))"




section \<open>The allocation interface of the header\<close>

text \<open>
  Modelled from the spec: the allocation entry points (\<open>make\<close>, \<open>makeBytes\<close> and
  the inline \<open>allocObject\<close>) are templates of SkArenaAlloc.h, which is not part of the
  sources. Section 4.3 of the spec gives the path of a trivially destructible allocation:
  no skip record, "compute the aligned start address", "if the remaining capacity in the
  active block is insufficient, invoke \<open>ensureSpace\<close> and restart", "return the aligned
  address"; such allocations "install no footer at all". A null cursor has no capacity.
\<close>

fun allocObject ::
  "u32 \<Rightarrow> u32 \<Rightarrow> addr list \<Rightarrow> arena \<times> machine \<Rightarrow> error + (addr \<times> addr list \<times> arena \<times> machine)"
where
  "allocObject sz alignment blocks (st, m) =
     (let mask = uint (alignment - 1)
      in if fCursor st = 0
         then (case blocks of
                 [] \<Rightarrow> Inl OutOfMemory
               | nb # blocks' \<Rightarrow>
                   (case ensureSpace sz alignment nb (st, m) of
                      Inl e \<Rightarrow> Inl e
                    | Inr sm' \<Rightarrow> allocObject sz alignment blocks' sm'))
         else
           let objStart = (fCursor st + mask) AND NOT mask
           in if uint sz > fEnd st - objStart
              then (case blocks of
                      [] \<Rightarrow> Inl OutOfMemory
                    | nb # blocks' \<Rightarrow>
                        (case ensureSpace sz alignment nb (st, m) of
                           Inl e \<Rightarrow> Inl e
                         | Inr sm' \<Rightarrow> allocObject sz alignment blocks' sm'))
              else Inr (objStart, blocks, st, m))"

text \<open>
  Modelled from the spec: a trivially destructible allocation of \<open>sz\<close> bytes. The
  caller's data occupies the bytes from the returned address, and the cursor moves past
  them.
\<close>

definition makeBytes ::
  "u32 \<Rightarrow> u32 \<Rightarrow> addr list \<Rightarrow> arena \<times> machine \<Rightarrow> error + (addr \<times> addr list \<times> arena \<times> machine)"
where
  "makeBytes sz alignment blocks sm =
     (case allocObject sz alignment blocks sm of
        Inl e \<Rightarrow> Inl e
      | Inr (objStart, blocks', st, m) \<Rightarrow>
          Inr (objStart, blocks',
               st\<lparr>fCursor := objStart + uint sz\<rparr>,
               m\<lparr>mem := clobber objStart (uint sz) (mem m)\<rparr>))"

text \<open>
  Modelled from the spec: the allocation of one destructible object of a type with the
  given \<open>sizeof\<close> and \<open>alignof\<close>. Section 4.3, step 4: \<open>allocObjectWithFooter\<close>
  returns "the aligned address to the caller, who constructs the object in place; the
  caller is responsible for installing the terminal footer (Destruct action) immediately
  after construction and advancing \<open>dtorCursor\<close> to the new \<open>cursor\<close>". The padding of
  the footer is the distance from the cursor to the aligned address (section 4.1).
\<close>

definition makeObject ::
  "u32 \<Rightarrow> u32 \<Rightarrow> addr list \<Rightarrow> arena \<times> machine \<Rightarrow> error + (addr \<times> addr list \<times> arena \<times> machine)"
where
  "makeObject sz alignment blocks sm =
     (case allocObjectWithFooter (sz + of_nat footer_size) alignment blocks sm of
        Inl e \<Rightarrow> Inl e
      | Inr (objStart, blocks', st, m) \<Rightarrow>
          (case ToU32 (objStart - fCursor st) of
             Inl e \<Rightarrow> Inl e
           | Inr padding \<Rightarrow>
               (case installFooter (FnReleaser (unat sz)) padding
                       (st\<lparr>fCursor := objStart + uint sz\<rparr>,
                        m\<lparr>mem := clobber objStart (uint sz) (mem m)\<rparr>) of
                  Inl e \<Rightarrow> Inl e
                | Inr (st', m') \<Rightarrow> Inr (objStart, blocks', st', m'))))"

text \<open>
  A request is one call of the interface: a destructible object or trivially destructible
  bytes, each with a size and an alignment. \<open>run\<close> serves a list of requests in
  order and returns the addresses handed out.
\<close>

datatype request = Object u32 u32 | Bytes u32 u32

fun make ::
  "request \<Rightarrow> addr list \<Rightarrow> arena \<times> machine \<Rightarrow> error + (addr \<times> addr list \<times> arena \<times> machine)"
where
  "make (Object sz alignment) blocks sm = makeObject sz alignment blocks sm"
| "make (Bytes sz alignment) blocks sm = makeBytes sz alignment blocks sm"

fun run ::
  "request list \<Rightarrow> addr list \<Rightarrow> arena \<times> machine \<Rightarrow> error + (addr list \<times> addr list \<times> arena \<times> machine)"
where
  "run [] blocks sm = Inr ([], blocks, sm)"
| "run (r # rs) blocks sm =
     (case make r blocks sm of
        Inl e \<Rightarrow> Inl e
      | Inr (a, blocks', sm') \<Rightarrow>
          (case run rs blocks' sm' of
             Inl e \<Rightarrow> Inl e
           | Inr (as, blocks'', sm'') \<Rightarrow> Inr (a # as, blocks'', sm'')))"

text \<open>The addresses of the destructible objects among the addresses handed out.\<close>

fun objects_of :: "request list \<Rightarrow> addr list \<Rightarrow> addr list" where
  "objects_of (Object sz alignment # rs) (a # as) = a # objects_of rs as"
| "objects_of (Bytes sz alignment # rs) (a # as) = objects_of rs as"
| "objects_of rs as = []"

text \<open>A machine on which nothing has happened yet, with the caller's memory regions.\<close>

definition fresh_machine :: "(addr \<times> int) list \<Rightarrow> machine" where
  "fresh_machine ext = \<lparr>mem = (\<lambda>_. None), heap = [], extern = ext, events = []\<rparr>"

section \<open>The footer chain in memory\<close>

text \<open>
  The bytes of a list of memory regions.
\<close>

definition covered :: "(addr \<times> int) list \<Rightarrow> addr set" where
  "covered rs = (\<Union>(b, k) \<in> set rs. {b ..< b + k})"

text \<open>
  \<open>preserves P mm mm'\<close>: every cell of \<open>mm\<close> that lies within the bytes \<open>P\<close> is still
  there, unchanged, in \<open>mm'\<close>.
\<close>

definition preserves :: "addr set \<Rightarrow> memory \<Rightarrow> memory \<Rightarrow> bool" where
  "preserves P mm mm' \<longleftrightarrow>
     (\<forall>b d. mm b = Some d \<longrightarrow> {b ..< b + cell_size d} \<subseteq> P \<longrightarrow> mm' b = Some d)"

text \<open>
  \<open>walk mm footerEnd evs S\<close>: the memory \<open>mm\<close> holds, ending at \<open>footerEnd\<close>, a chain
  of footers as the arena writes them; \<open>evs\<close> are the events of the walk that
  \<open>RunDtorsOnBlock\<close> makes over it, in order, and \<open>S\<close> are the bytes of the records it
  reads. The footers of the end of the chain, of a skipped run and of a previous block have
  padding 0; the footer of an object has the padding that its alignment asked for.
\<close>

inductive walk :: "memory \<Rightarrow> addr \<Rightarrow> event list \<Rightarrow> addr set \<Rightarrow> bool" where
  walk_null: "walk mm 0 [] {}"
| walk_end:
    "footerEnd \<noteq> 0 \<Longrightarrow> mm (footerEnd - 9) = Some (Action FnEndChain) \<Longrightarrow>
     mm (footerEnd - 1) = Some (Pad 0) \<Longrightarrow>
     walk mm footerEnd [EndOfChain footerEnd] {footerEnd - 9 ..< footerEnd}"
| walk_skip:
    "footerEnd \<noteq> 0 \<Longrightarrow> mm (footerEnd - 9) = Some (Action FnSkipPod) \<Longrightarrow>
     mm (footerEnd - 1) = Some (Pad 0) \<Longrightarrow> mm (footerEnd - 13) = Some (U32 skip) \<Longrightarrow>
     walk mm (footerEnd - 13 - sint skip) evs S \<Longrightarrow>
     walk mm footerEnd evs ({footerEnd - 13 ..< footerEnd} \<union> S)"
| walk_next:
    "footerEnd \<noteq> 0 \<Longrightarrow> mm (footerEnd - 9) = Some (Action FnNextBlock) \<Longrightarrow>
     mm (footerEnd - 1) = Some (Pad 0) \<Longrightarrow> mm (footerEnd - 17) = Some (Ptr next) \<Longrightarrow>
     walk mm next evs S \<Longrightarrow>
     walk mm footerEnd (evs @ [Deleted (footerEnd - 17)]) ({footerEnd - 17 ..< footerEnd} \<union> S)"
| walk_object:
    "footerEnd \<noteq> 0 \<Longrightarrow> mm (footerEnd - 9) = Some (Action (FnReleaser n)) \<Longrightarrow>
     mm (footerEnd - 1) = Some (Pad padding) \<Longrightarrow>
     walk mm (footerEnd - (int n + 9) - uint padding) evs S \<Longrightarrow>
     walk mm footerEnd (Destructed (footerEnd - (int n + 9)) # evs)
       ({footerEnd - 9 ..< footerEnd} \<union> S)"

text \<open>The blocks that a list of events deletes, and the objects it destructs, in order.\<close>

fun deleted :: "event list \<Rightarrow> addr list" where
  "deleted [] = []"
| "deleted (Deleted p # evs) = p # deleted evs"
| "deleted (e # evs) = deleted evs"

fun destructed :: "event list \<Rightarrow> addr list" where
  "destructed [] = []"
| "destructed (Destructed p # evs) = p # destructed evs"
| "destructed (e # evs) = destructed evs"

text \<open>
  The invariant of an arena and its machine: the chain that ends at \<open>fDtorCursor\<close> is
  intact and will make the events \<open>evs\<close>; its records lie within the protected bytes
  \<open>P\<close>, which belong to live regions and are apart from the part of the active block
  that is still to be written; the cursors are in order; the blocks that the chain will
  delete are live heap blocks.
\<close>

definition arena_inv :: "arena \<Rightarrow> machine \<Rightarrow> event list \<Rightarrow> addr set \<Rightarrow> bool" where
  "arena_inv st m evs P \<longleftrightarrow>
     (\<exists>S. S \<subseteq> P \<and> walk (mem m) (fDtorCursor st) evs S)
     \<and> P \<inter> {fDtorCursor st ..< fEnd st} = {}
     \<and> P \<subseteq> covered (heap m @ extern m)
     \<and> (if fCursor st = 0 then fDtorCursor st = 0
         else 0 < fDtorCursor st \<and> fDtorCursor st \<le> fCursor st \<and> fCursor st \<le> fEnd st
              \<and> {fDtorCursor st ..< fEnd st} \<subseteq> covered (heap m @ extern m))
     \<and> distinct (deleted evs) \<and> set (deleted evs) \<subseteq> fst ` set (heap m)"

text \<open>
  A request whose sizes fit: the object, its footer and a skip record together are
  representable in 32 bits.
\<close>

fun request_ok :: "request \<Rightarrow> bool" where
  "request_ok (Object sz alignment) \<longleftrightarrow> uint sz + 22 \<le> 4294967295"
| "request_ok (Bytes sz alignment) \<longleftrightarrow> True"

text \<open>
  \<open>pods_small rs blocks sm\<close>: in the run of the requests \<open>rs\<close>, the bytes between
  \<open>fDtorCursor\<close> and \<open>fCursor\<close> (the trivially destructible data not yet covered by a
  skip record) stay below \<open>2^31\<close> after every request.
\<close>

fun pods_small :: "request list \<Rightarrow> addr list \<Rightarrow> arena \<times> machine \<Rightarrow> bool" where
  "pods_small [] blocks sm = True"
| "pods_small (r # rs) blocks sm =
     (case make r blocks sm of
        Inl e \<Rightarrow> True
      | Inr (a, blocks', st', m') \<Rightarrow>
          fCursor st' - fDtorCursor st' < 2 ^ 31 \<and> pods_small rs blocks' (st', m'))"

text \<open>
  The life of an arena, for runs on concrete inputs: construction, a run of requests,
  destruction; the addresses handed out and the events of the whole life.
\<close>

definition arena_session ::
  "addr \<Rightarrow> nat \<Rightarrow> nat \<Rightarrow> machine \<Rightarrow> request list \<Rightarrow> addr list \<Rightarrow> nat
     \<Rightarrow> error + (addr list \<times> event list)" where
  "arena_session block sz fha m0 reqs blocks fuel =
     (case SkArenaAlloc block sz fha m0 of
        Inl e \<Rightarrow> Inl e
      | Inr sm \<Rightarrow>
          (case run reqs blocks sm of
             Inl e \<Rightarrow> Inl e
           | Inr (as, blocks', st, m) \<Rightarrow>
               (case SkArenaAlloc_dtor fuel st m of
                  Inl e \<Rightarrow> Inl e
                | Inr m' \<Rightarrow> Inr (as, events m'))))"

text \<open>
  The same construction and requests without the teardown: the addresses handed out, the
  blocks that are live in the system allocator afterwards, and the trace so far.
\<close>

definition arena_allocations ::
  "addr \<Rightarrow> nat \<Rightarrow> nat \<Rightarrow> machine \<Rightarrow> request list \<Rightarrow> addr list
     \<Rightarrow> error + (addr list \<times> (addr \<times> int) list \<times> event list)" where
  "arena_allocations block sz fha m0 reqs blocks =
     (case SkArenaAlloc block sz fha m0 of
        Inl e \<Rightarrow> Inl e
      | Inr sm \<Rightarrow>
          (case run reqs blocks sm of
             Inl e \<Rightarrow> Inl e
           | Inr (as, blocks', st, m) \<Rightarrow> Inr (as, heap m, events m)))"

text \<open>
  A sequence of requests each of which exceeds the remaining capacity of the active block
  is a sequence of calls of \<open>ensureSpace\<close>, one for each request, with the size and the
  alignment that the request passes to it; the system allocator gives one block to each.
\<close>

fun grow :: "(u32 \<times> u32) list \<Rightarrow> addr list \<Rightarrow> arena \<times> machine \<Rightarrow> error + (arena \<times> machine)" where
  "grow [] blocks sm = Inr sm"
| "grow ((sz, alignment) # rs) [] sm = Inl OutOfMemory"
| "grow ((sz, alignment) # rs) (nb # blocks) sm =
     (case ensureSpace sz alignment nb sm of
        Inl e \<Rightarrow> Inl e
      | Inr sm' \<Rightarrow> grow rs blocks sm')"

text \<open>
  The overhead-inclusive size of a request, lines 78-84, as an integer that cannot wrap:
  the size, the constant \<open>overhead\<close> and the alignment overhead \<open>alignment - 1\<close>.
\<close>

definition exact_size :: "u32 \<times> u32 \<Rightarrow> int" where
  "exact_size r = uint (fst r) + uint overhead + (uint (snd r) - 1)"

text \<open>
  Lines 95-103 on integers: the next multiple of 4096 for a size above 32768, of 16
  otherwise.
\<close>

definition rounded :: "int \<Rightarrow> int" where
  "rounded a = (let k = (if 32768 < a then 4096 else 16) in (a + (k - 1)) div k * k)"


text \<open>
  \<open>frame Q st m\<close>: the bytes \<open>Q\<close> are memory that the system allocator will not
  hand out, and none of them lies in the unused part of the active block.
\<close>

definition frame :: "addr set \<Rightarrow> arena \<Rightarrow> machine \<Rightarrow> bool" where
  "frame Q st m \<longleftrightarrow>
     Q \<subseteq> covered (heap m @ extern m)
     \<and> (fCursor st \<noteq> 0 \<longrightarrow> 0 < fCursor st \<and> Q \<inter> {fCursor st ..< fEnd st} = {})"

text \<open>The two allocation passes are unfolded by hand, one pass at a time.\<close>

declare allocObjectWithFooter.simps [simp del]

declare allocObject.simps [simp del]

section \<open>Arithmetic of the size computation\<close>

lemma and_not_eq_diff: "x AND NOT m = x - (x AND m)" for x :: "'a::ring_bit_operations"
proof -
  have "x - (x AND m) = x AND NOT (x AND m)"
    by (rule disjunctive_diff) (simp add: bit_and_iff)
  also have "\<dots> = x AND NOT m"
    by (rule bit_eqI) (auto simp: bit_and_iff bit_not_iff bit_or_iff)
  finally show ?thesis by simp
qed

lemma unat_and_not_mask:
  "unat (y AND NOT (mask k)) = (unat y div 2 ^ k) * 2 ^ k" for y :: "'a::len word"
proof -
  have le: "y AND mask k \<le> y" by (simp add: word_and_le2)
  have "unat (y AND NOT (mask k)) = unat (y - (y AND mask k))"
    by (simp add: and_not_eq_diff)
  also have "\<dots> = unat y - unat (y AND mask k)"
    using le by (simp add: unat_sub)
  also have "y AND mask k = take_bit k y"
    by (simp add: take_bit_eq_mask)
  also have "unat (take_bit k y) = take_bit k (unat y)"
    by (simp add: unsigned_take_bit_eq)
  also have "\<dots> = unat y mod 2 ^ k"
    by (simp add: take_bit_eq_mod)
  also have "unat y - unat y mod 2 ^ k = (unat y div 2 ^ k) * 2 ^ k"
    by (simp add: minus_mod_eq_div_mult)
  finally show ?thesis .
qed

lemma unat_u32_bound: "unat x \<le> 4294967295" for x :: u32
  using unsigned_less [of x, where 'a = nat] by simp

lemma unat_maxSize: "unat maxSize = 4294967295"
  by (simp add: maxSize_def unsigned_minus_1_eq_mask mask_eq_exp_minus_1)

lemma unat_overhead: "unat overhead = 26"
  by (simp add: overhead_def headerSize_def footer_size_def ptr_size_def)

lemma u32_le_max_minus:
  "(x \<le> maxSize - y) \<longleftrightarrow> unat x + unat y \<le> 4294967295" for x y :: u32
proof -
  have "y \<le> maxSize" using unat_u32_bound [of y] by (simp add: word_le_nat_alt unat_maxSize)
  then have "unat (maxSize - y) = 4294967295 - unat y" by (simp add: unat_sub unat_maxSize)
  then show ?thesis using unat_u32_bound [of y] by (simp add: word_le_nat_alt) arith
qed

lemma u32_add_no_wrap:
  "unat x + unat y \<le> 4294967295 \<Longrightarrow> unat (x + y) = unat x + unat y" for x y :: u32
  using unat_add_lem [of x y] by simp

lemma unat_al_minus_1:
  "unat (al - 1) = (if al = 0 then 4294967295 else unat al - 1)" for al :: u32
  using unat_maxSize by (cases "al = 0") (simp_all add: unat_minus_one maxSize_def)

lemma unat_max_u32: "unat (max x y) = max (unat x) (unat y)" for x y :: u32
  by (simp add: max_def word_le_nat_alt)

lemma mask_vals:
  "unat (mask 12 :: u32) = 4095" "unat (mask 4 :: u32) = 15"
  by (simp_all add: mask_eq_exp_minus_1)

text \<open>
  The size computation of \<open>ensureSpace\<close>, case by case, against the same computation on
  natural numbers, where nothing wraps.
\<close>

lemma ensureSpace_size_cases:
  fixes sz al :: u32 and st :: arena
  defines "need \<equiv> unat sz + 26 + (unat al - 1)"
  defines "a \<equiv> max need (unat (fNextHeapAlloc st))"
  defines "k \<equiv> (if a > 32768 then 4096 else (16::nat))"
  shows "ensureSpace_size sz al st =
     (if al = 0 \<or> need > 4294967295 \<or> a + (k - 1) > 4294967295 then Inl Abort
      else Inr (of_nat ((a + (k - 1)) div k * k),
                if fYetNextHeapAlloc st \<le> maxSize - fNextHeapAlloc st
                then st\<lparr>fNextHeapAlloc := fYetNextHeapAlloc st,
                        fYetNextHeapAlloc := fNextHeapAlloc st + fYetNextHeapAlloc st\<rparr>
                else st\<lparr>fNextHeapAlloc := maxSize\<rparr>))"
proof (cases "al = 0 \<or> need > 4294967295")
  case True
  show ?thesis
  proof (cases "sz \<le> maxSize - overhead")
    case False
    then have "unat sz + 26 > 4294967295" by (simp add: unat_overhead u32_le_max_minus)
    then have "need > 4294967295" by (simp add: need_def)
    then show ?thesis using False
      unfolding ensureSpace_size_def AssertRelease_def Let_def by simp
  next
    case s1: True
    then have b: "unat sz + 26 \<le> 4294967295" by (simp add: unat_overhead u32_le_max_minus)
    then have u1: "unat (sz + overhead) = unat sz + 26"
      by (simp add: u32_add_no_wrap unat_overhead)
    have "\<not> sz + overhead \<le> maxSize - (al - 1)"
      using True b by (auto simp add: u32_le_max_minus u1 unat_al_minus_1 need_def)
    then show ?thesis using s1 True
      unfolding ensureSpace_size_def AssertRelease_def Let_def by auto
  qed
next
  case False
  then have al: "al \<noteq> 0" and need: "need \<le> 4294967295" by auto
  have s1: "sz \<le> maxSize - overhead"
    using need by (simp add: unat_overhead u32_le_max_minus need_def)
  have u1: "unat (sz + overhead) = unat sz + 26"
    using need by (simp add: u32_add_no_wrap need_def unat_overhead)
  have s2: "sz + overhead \<le> maxSize - (al - 1)"
    using need al by (simp add: u32_le_max_minus need_def u1 unat_al_minus_1)
  have u2: "unat (sz + overhead + (al - 1)) = need"
    using need al by (simp add: u32_add_no_wrap need_def u1 unat_al_minus_1)
  define A where "A = max (sz + overhead + (al - 1)) (fNextHeapAlloc st)"
  have uA: "unat A = a" by (simp add: A_def unat_max_u32 u2 a_def)
  have big: "A > 2 ^ 15 \<longleftrightarrow> a > 32768" by (simp add: word_less_nat_alt uA)
  define M :: u32 where "M = (if A > 2 ^ 15 then 2 ^ 12 - 1 else 16 - 1)"
  have Mm: "M = (if a > 32768 then mask 12 else mask 4)"
    unfolding M_def big by (simp add: mask_eq_exp_minus_1)
  have uM: "unat M = k - 1" by (simp add: Mm k_def mask_vals)
  have s3: "A \<le> maxSize - M \<longleftrightarrow> a + (k - 1) \<le> 4294967295"
    by (simp add: u32_le_max_minus uA uM)
  have u3: "a + (k - 1) \<le> 4294967295 \<Longrightarrow> unat ((A + M) AND NOT M) = (a + (k - 1)) div k * k"
    by (auto simp: Mm unat_and_not_mask u32_add_no_wrap uA k_def mask_vals)
  have eq: "ensureSpace_size sz al st =
      (if A \<le> maxSize - M
       then Inr ((A + M) AND NOT M,
                if fYetNextHeapAlloc st \<le> maxSize - fNextHeapAlloc st
                then st\<lparr>fNextHeapAlloc := fYetNextHeapAlloc st,
                        fYetNextHeapAlloc := fNextHeapAlloc st + fYetNextHeapAlloc st\<rparr>
                else st\<lparr>fNextHeapAlloc := maxSize\<rparr>)
       else Inl Abort)"
    unfolding ensureSpace_size_def AssertRelease_def Let_def A_def M_def
    using s1 s2 by simp
  show ?thesis
  proof (cases "a + (k - 1) \<le> 4294967295")
    case True
    then have "word_of_nat (unat ((A + M) AND NOT M))
        = (word_of_nat ((a + (k - 1)) div k * k) :: u32)"
      using u3 by simp
    then have "(A + M) AND NOT M = of_nat ((a + (k - 1)) div k * k)"
      by simp
    then show ?thesis using True False s3 unfolding eq need_def by simp
  next
    case F2: False
    then show ?thesis using s3 False unfolding eq need_def by simp
  qed
qed

text \<open>What a size computation that returns has computed.\<close>

lemma ensureSpace_size_InrD:
  assumes "ensureSpace_size sz al st = Inr (n, st')"
  shows "al \<noteq> 0"
    and "uint sz + 26 + (uint al - 1) \<le> 4294967295"
    and "max (uint sz + 26 + (uint al - 1)) (uint (fNextHeapAlloc st)) \<le> uint n"
    and "32768 < max (uint sz + 26 + (uint al - 1)) (uint (fNextHeapAlloc st)) \<Longrightarrow>
           4096 dvd uint n \<and> uint n < max (uint sz + 26 + (uint al - 1)) (uint (fNextHeapAlloc st)) + 4096"
    and "\<not> 32768 < max (uint sz + 26 + (uint al - 1)) (uint (fNextHeapAlloc st)) \<Longrightarrow>
           16 dvd uint n \<and> uint n < max (uint sz + 26 + (uint al - 1)) (uint (fNextHeapAlloc st)) + 16"
    and "st' = (if fYetNextHeapAlloc st \<le> maxSize - fNextHeapAlloc st
                then st\<lparr>fNextHeapAlloc := fYetNextHeapAlloc st,
                        fYetNextHeapAlloc := fNextHeapAlloc st + fYetNextHeapAlloc st\<rparr>
                else st\<lparr>fNextHeapAlloc := maxSize\<rparr>)"
    and "uint n = (let a = max (uint sz + 26 + (uint al - 1)) (uint (fNextHeapAlloc st));
                       k = (if 32768 < a then 4096 else 16)
                   in (a + (k - 1)) div k * k)"
proof -
  define need where "need = unat sz + 26 + (unat al - 1)"
  define a where "a = max need (unat (fNextHeapAlloc st))"
  define k where "k = (if a > 32768 then 4096 else (16::nat))"
  note c = ensureSpace_size_cases [of sz al st, folded need_def, folded a_def, folded k_def]
  from assms c have ok: "al \<noteq> 0" "need \<le> 4294967295" "a + (k - 1) \<le> 4294967295"
    and n: "n = of_nat ((a + (k - 1)) div k * k)"
    and st': "st' = (if fYetNextHeapAlloc st \<le> maxSize - fNextHeapAlloc st
                then st\<lparr>fNextHeapAlloc := fYetNextHeapAlloc st,
                        fYetNextHeapAlloc := fNextHeapAlloc st + fYetNextHeapAlloc st\<rparr>
                else st\<lparr>fNextHeapAlloc := maxSize\<rparr>)"
    by (auto split: if_splits)
  have kpos: "0 < k" by (simp add: k_def)
  define Nn where "Nn = (a + (k - 1)) div k * k"
  have Nn_dvd: "k dvd Nn" by (simp add: Nn_def)
  have Nn_eq: "Nn = (a + (k - 1)) - (a + (k - 1)) mod k"
    by (simp add: Nn_def minus_mod_eq_div_mult)
  have "(a + (k - 1)) mod k < k" using kpos by simp
  then have Nn_ge: "a \<le> Nn" and Nn_lt: "Nn < a + k" using kpos unfolding Nn_eq by arith+
  have "Nn < 4294967296" using Nn_eq ok(3) by arith
  then have "Nn < 2 ^ 32" by simp
  then have "unat (word_of_nat Nn :: u32) = Nn" by (simp add: unat_of_nat)
  then have un: "unat n = Nn" unfolding n Nn_def .
  have al1: "unat al \<ge> 1" using ok(1) by (simp add: unat_gt_0 Suc_le_eq)
  have needi: "uint sz + 26 + (uint al - 1) = int need"
    using al1 by (simp add: need_def of_nat_diff)
  have ai: "max (uint sz + 26 + (uint al - 1)) (uint (fNextHeapAlloc st)) = int a"
  proof -
    have "int a = max (int need) (int (unat (fNextHeapAlloc st)))"
      unfolding a_def by (rule of_nat_max)
    then show ?thesis unfolding needi by simp
  qed
  have ni: "uint n = int Nn"
    using un by (metis uint_nat)
  show "al \<noteq> 0" by fact
  show "uint sz + 26 + (uint al - 1) \<le> 4294967295" using ok(2) by (simp add: needi)
  show "max (uint sz + 26 + (uint al - 1)) (uint (fNextHeapAlloc st)) \<le> uint n"
    unfolding ai ni using Nn_ge by simp
  show "4096 dvd uint n \<and> uint n < max (uint sz + 26 + (uint al - 1)) (uint (fNextHeapAlloc st)) + 4096"
    if "32768 < max (uint sz + 26 + (uint al - 1)) (uint (fNextHeapAlloc st))"
  proof -
    from that have k: "k = 4096" unfolding ai by (simp add: k_def)
    have "int k dvd int Nn" using Nn_dvd by (simp only: int_dvd_int_iff)
    moreover have "int Nn < int a + int k" using Nn_lt by linarith
    ultimately show ?thesis unfolding ai ni k by simp
  qed
  show "16 dvd uint n \<and> uint n < max (uint sz + 26 + (uint al - 1)) (uint (fNextHeapAlloc st)) + 16"
    if "\<not> 32768 < max (uint sz + 26 + (uint al - 1)) (uint (fNextHeapAlloc st))"
  proof -
    from that have k: "k = 16" unfolding ai by (simp add: k_def)
    have "int k dvd int Nn" using Nn_dvd by (simp only: int_dvd_int_iff)
    moreover have "int Nn < int a + int k" using Nn_lt by linarith
    ultimately show ?thesis unfolding ai ni k by simp
  qed
  show "st' = (if fYetNextHeapAlloc st \<le> maxSize - fNextHeapAlloc st
                then st\<lparr>fNextHeapAlloc := fYetNextHeapAlloc st,
                        fYetNextHeapAlloc := fNextHeapAlloc st + fYetNextHeapAlloc st\<rparr>
                else st\<lparr>fNextHeapAlloc := maxSize\<rparr>)" by fact
  have ki: "int k = (if 32768 < int a then 4096 else 16)" by (simp add: k_def)
  have e1: "int (a + (k - 1)) = int a + (int k - 1)" using kpos by linarith
  have e2: "int Nn = int (a + (k - 1)) div int k * int k"
    unfolding Nn_def by (simp only: of_nat_mult zdiv_int)
  have "int Nn = (int a + (int k - 1)) div int k * int k"
    using e2 unfolding e1 .
  then show "uint n = (let a = max (uint sz + 26 + (uint al - 1)) (uint (fNextHeapAlloc st));
                       k = (if 32768 < a then 4096 else 16)
                   in (a + (k - 1)) div k * k)"
    unfolding Let_def ai ni ki [symmetric] .
qed

lemma uint_maxSize: "uint maxSize = 4294967295"
  using unat_maxSize by (metis uint_nat of_nat_numeral)

lemma uint_overhead: "uint overhead = 26"
  using unat_overhead by (metis uint_nat of_nat_numeral)

lemma ensureSpace_size_Inl: "ensureSpace_size sz al st = Inl e \<Longrightarrow> e = Abort"
  using ensureSpace_size_cases [of sz al st] by (auto split: if_splits)

lemma ensureSpace_Inl:
  "ensureSpace sz al nb (st, m) = Inl e \<Longrightarrow>
     (ensureSpace_size sz al st = Inl Abort \<and> e = Abort) \<or> e = OutOfMemory"
  by (auto simp: ensureSpace_def new_char_def installFooter_def installRaw_def Let_def
      split: sum.splits if_splits prod.splits dest: ensureSpace_size_Inl)

lemma ensureSpace_InrD:
  assumes "ensureSpace sz al nb (st, m) = Inr (st', m')"
  shows "\<exists>n st1. ensureSpace_size sz al st = Inr (n, st1) \<and> 0 < nb
          \<and> disjoint_from nb (uint n) (heap m) \<and> disjoint_from nb (uint n) (extern m)
          \<and> st' = st1\<lparr>fCursor := nb + 17, fDtorCursor := nb + 17, fEnd := nb + uint n\<rparr>
          \<and> m' = m\<lparr>heap := (nb, uint n) # heap m,
                    mem := store (nb + 16) (Pad 0) (store (nb + 8) (Action FnNextBlock)
                             (store nb (Ptr (fDtorCursor st)) (mem m)))\<rparr>"
proof -
  from assms obtain n st1 where s: "ensureSpace_size sz al st = Inr (n, st1)"
    by (auto simp: ensureSpace_def split: sum.splits)
  have d: "fDtorCursor st1 = fDtorCursor st"
    using ensureSpace_size_InrD(6) [OF s] by (simp split: if_splits)
  show ?thesis
    using assms s d
    by (auto simp: ensureSpace_def new_char_def installFooter_def installRaw_def Let_def
        add.commute split: sum.splits if_splits prod.splits)
qed


lemma ensureSpace_size_Abort:
  fixes sz al :: u32 and st :: arena
  defines "need \<equiv> uint sz + 26 + (uint al - 1)"
  defines "a \<equiv> max need (uint (fNextHeapAlloc st))"
  assumes "al = 0 \<or> 4294967295 < uint sz + 26 \<or> 4294967295 < need
     \<or> 4294967295 < a + (if 32768 < a then 4095 else 15)"
  shows "ensureSpace_size sz al st = Inl Abort"
proof (cases "al = 0")
  case True
  then show ?thesis using ensureSpace_size_cases [of sz al st] by simp
next
  case False
  define needn where "needn = unat sz + 26 + (unat al - 1)"
  define an where "an = max needn (unat (fNextHeapAlloc st))"
  define kn where "kn = (if an > 32768 then 4096 else (16::nat))"
  note c = ensureSpace_size_cases [of sz al st, folded needn_def, folded an_def, folded kn_def]
  have al1: "unat al \<ge> 1" using False by (simp add: unat_gt_0 Suc_le_eq)
  have needi: "need = int needn"
    using al1 by (simp add: need_def needn_def of_nat_diff)
  have "int an = max (int needn) (int (unat (fNextHeapAlloc st)))"
    unfolding an_def by (rule of_nat_max)
  then have ai: "a = int an" unfolding a_def needi by simp
  have ki: "(if 32768 < a then 4095 else 15) = int (kn - 1)"
    unfolding ai kn_def by simp
  have "uint al = int (unat al)" by (rule uint_nat)
  then have "0 \<le> uint al - 1" using al1 by linarith
  then have "4294967295 < uint sz + 26 \<Longrightarrow> 4294967295 < need" unfolding need_def by linarith
  with assms(3) False have "4294967295 < need \<or> 4294967295 < a + (if 32768 < a then 4095 else 15)"
    by blast
  then have "4294967295 < int needn \<or> 4294967295 < int (an + (kn - 1))"
    unfolding needi ai by (auto simp: kn_def)
  then have "4294967295 < needn \<or> 4294967295 < an + (kn - 1)"
    by linarith
  then show ?thesis unfolding c by simp
qed

lemma uint_add_le_iff:
  "uint x + uint y \<le> 4294967295 \<longleftrightarrow> unat x + unat y \<le> 4294967295" for x y :: u32
proof -
  have "uint x = int (unat x)" "uint y = int (unat y)" by (rule uint_nat)+
  then show ?thesis by linarith
qed

lemma uint_add_no_wrap:
  "uint x + uint y \<le> 4294967295 \<Longrightarrow> uint (x + y) = uint x + uint y" for x y :: u32
proof -
  assume "uint x + uint y \<le> 4294967295"
  then have "unat (x + y) = unat x + unat y"
    by (simp only: uint_add_le_iff u32_add_no_wrap)
  then have "int (unat (x + y)) = int (unat x) + int (unat y)" by simp
  then show ?thesis by (simp only: uint_nat)
qed

text \<open>The definitions that a run on concrete inputs evaluates.\<close>

lemmas arena_eval = ensureSpace_def ensureSpace_size_def AssertRelease_def maxSize_def
  overhead_def headerSize_def footer_size_def ptr_size_def new_char_def disjoint_from_def
  fresh_machine_def installFooter_def installRaw_def Let_def

section \<open>Memory lemmas\<close>

lemma cell_size_pos: "0 < cell_size c"
  by (cases c) auto

lemma preserves_refl: "preserves P mm mm"
  by (simp add: preserves_def)

lemma preserves_trans: "preserves P a b \<Longrightarrow> preserves P b c \<Longrightarrow> preserves P a c"
  by (simp add: preserves_def)

lemma preserves_mono: "preserves P a b \<Longrightarrow> Q \<subseteq> P \<Longrightarrow> preserves Q a b"
  by (auto simp: preserves_def)

lemma overlaps_iff: "overlaps a n b k \<longleftrightarrow> {a ..< a + n} \<inter> {b ..< b + k} \<noteq> {}"
proof
  assume "overlaps a n b k"
  then have "max a b \<in> {a ..< a + n} \<inter> {b ..< b + k}"
    by (auto simp: overlaps_def max_def min_def split: if_splits)
  then show "{a ..< a + n} \<inter> {b ..< b + k} \<noteq> {}" by blast
next
  assume "{a ..< a + n} \<inter> {b ..< b + k} \<noteq> {}"
  then obtain x where "x \<in> {a ..< a + n} \<inter> {b ..< b + k}" by blast
  then have "a \<le> x" "x < a + n" "b \<le> x" "x < b + k" by auto
  then show "overlaps a n b k" by (auto simp: overlaps_def)
qed

lemma preservesD:
  "preserves P mm mm' \<Longrightarrow> mm b = Some d \<Longrightarrow> {b ..< b + cell_size d} \<subseteq> P \<Longrightarrow> mm' b = Some d"
  by (simp add: preserves_def)

lemma preserves_store:
  assumes "P \<inter> {a ..< a + cell_size c} = {}"
  shows "preserves P mm (store a c mm)"
  unfolding preserves_def
proof (intro allI impI)
  fix b d
  assume b: "mm b = Some d" and sub: "{b ..< b + cell_size d} \<subseteq> P"
  have "b \<in> P" using sub cell_size_pos [of d] by auto
  moreover have "a \<notin> P" using assms cell_size_pos [of c] by auto
  ultimately have ne: "b \<noteq> a" by auto
  have "\<not> overlaps a (cell_size c) b (cell_size d)"
    unfolding overlaps_iff using sub assms by blast
  with ne b show "store a c mm b = Some d" by (simp add: store_def)
qed

lemma preserves_clobber:
  assumes "P \<inter> {a ..< a + n} = {}"
  shows "preserves P mm (clobber a n mm)"
  unfolding preserves_def
proof (intro allI impI)
  fix b d
  assume b: "mm b = Some d" and sub: "{b ..< b + cell_size d} \<subseteq> P"
  have "\<not> overlaps a n b (cell_size d)"
    unfolding overlaps_iff using sub assms by blast
  with b show "clobber a n mm b = Some d" by (simp add: clobber_def)
qed

lemma store_same: "store a c mm a = Some c"
  by (simp add: store_def)

lemma store_other:
  "mm b = Some d \<Longrightarrow> b + cell_size d \<le> a \<or> a + cell_size c \<le> b \<Longrightarrow> store a c mm b = Some d"
  using cell_size_pos [of c] cell_size_pos [of d] by (auto simp: store_def overlaps_def)

lemma walk_preserves:
  assumes "walk mm fe evs S" and "preserves P mm mm'" and "S \<subseteq> P"
  shows "walk mm' fe evs S"
  using assms
proof (induction rule: walk.induct)
  case (walk_null mm)
  show ?case by (rule walk.walk_null)
next
  case (walk_end footerEnd mm)
  note p = preservesD [OF walk_end.prems(1)]
  have "mm' (footerEnd - 9) = Some (Action FnEndChain)"
    using walk_end by (intro p) auto
  moreover have "mm' (footerEnd - 1) = Some (Pad 0)"
    using walk_end by (intro p) auto
  ultimately show ?case using walk_end by (intro walk.walk_end) auto
next
  case (walk_skip footerEnd mm skip evs S)
  note p = preservesD [OF walk_skip.prems(1)]
  have "mm' (footerEnd - 9) = Some (Action FnSkipPod)"
    using walk_skip by (intro p) auto
  moreover have "mm' (footerEnd - 1) = Some (Pad 0)"
    using walk_skip by (intro p) auto
  moreover have "mm' (footerEnd - 13) = Some (U32 skip)"
    using walk_skip by (intro p) auto
  ultimately show ?case using walk_skip by (intro walk.walk_skip) auto
next
  case (walk_next footerEnd mm "next" evs S)
  note p = preservesD [OF walk_next.prems(1)]
  have "mm' (footerEnd - 9) = Some (Action FnNextBlock)"
    using walk_next by (intro p) auto
  moreover have "mm' (footerEnd - 1) = Some (Pad 0)"
    using walk_next by (intro p) auto
  moreover have "mm' (footerEnd - 17) = Some (Ptr next)"
    using walk_next by (intro p) auto
  ultimately show ?case using walk_next by (intro walk.walk_next) auto
next
  case (walk_object footerEnd mm n padding evs S)
  note p = preservesD [OF walk_object.prems(1)]
  have "mm' (footerEnd - 9) = Some (Action (FnReleaser n))"
    using walk_object by (intro p) auto
  moreover have "mm' (footerEnd - 1) = Some (Pad padding)"
    using walk_object by (intro p) auto
  ultimately show ?case using walk_object by (intro walk.walk_object) auto
qed

lemma deleted_append: "deleted (xs @ ys) = deleted xs @ deleted ys"
  by (induction xs rule: deleted.induct) auto

lemma destructed_append: "destructed (xs @ ys) = destructed xs @ destructed ys"
  by (induction xs rule: destructed.induct) auto

lemma walk_deleted_in: "walk mm fe evs S \<Longrightarrow> set (deleted evs) \<subseteq> S"
  by (induction rule: walk.induct) (auto simp: deleted_append)

section \<open>Teardown follows the chain\<close>

lemma RunDtorsOnBlock_null: "RunDtorsOnBlock f 0 m = Inr m"
  by (cases f) simp_all

lemma RunDtorsOnBlock_walk:
  assumes "walk mm fe evs S"
  shows "mem m = mm \<Longrightarrow> distinct (deleted evs) \<Longrightarrow> set (deleted evs) \<subseteq> fst ` set (heap m) \<Longrightarrow>
     \<exists>f0. \<forall>f\<ge>f0. RunDtorsOnBlock f fe m =
        Inr (m\<lparr>events := events m @ evs,
                heap := filter (\<lambda>r. fst r \<notin> set (deleted evs)) (heap m)\<rparr>)"
  using assms
proof (induction arbitrary: m rule: walk.induct)
  case (walk_null mm)
  then show ?case by (simp add: RunDtorsOnBlock_null)
next
  case (walk_end footerEnd mm)
  have "RunDtorsOnBlock f footerEnd m = Inr (m\<lparr>events := events m @ [EndOfChain footerEnd]\<rparr>)"
    if "f \<ge> 1" for f
  proof -
    from that obtain f' where f: "f = Suc f'" by (cases f) auto
    show ?thesis unfolding f using walk_end
      by (simp add: footer_size_def ptr_size_def end_chain_def RunDtorsOnBlock_null)
  qed
  then show ?case by auto
next
  case (walk_skip footerEnd mm skip evs S)
  from walk_skip.IH [of m] walk_skip.prems obtain f0 where
    ih: "\<forall>f\<ge>f0. RunDtorsOnBlock f (footerEnd - 13 - sint skip) m =
        Inr (m\<lparr>events := events m @ evs,
                heap := filter (\<lambda>r. fst r \<notin> set (deleted evs)) (heap m)\<rparr>)"
    by auto
  have "RunDtorsOnBlock f footerEnd m =
        Inr (m\<lparr>events := events m @ evs,
                heap := filter (\<lambda>r. fst r \<notin> set (deleted evs)) (heap m)\<rparr>)"
    if "f \<ge> Suc f0" for f
  proof -
    from that obtain f' where f: "f = Suc f'" and f': "f' \<ge> f0" by (cases f) auto
    have "footerEnd - (9 + 4) = footerEnd - 13" by simp
    then show ?thesis unfolding f using walk_skip.hyps walk_skip.prems(1) ih f'
      by (simp add: footer_size_def ptr_size_def SkipPod_def)
  qed
  then show ?case by blast
next
  case (walk_next footerEnd mm "next" evs S)
  let ?p = "footerEnd - 17"
  from walk_next.prems have d: "distinct (deleted evs)" and pn: "?p \<notin> set (deleted evs)"
    and sub: "set (deleted evs) \<subseteq> fst ` set (heap m)" and pin: "?p \<in> fst ` set (heap m)"
    by (auto simp: deleted_append)
  from walk_next.IH [of m] walk_next.prems(1) d sub obtain f0 where
    ih: "\<forall>f\<ge>f0. RunDtorsOnBlock f next m =
        Inr (m\<lparr>events := events m @ evs,
                heap := filter (\<lambda>r. fst r \<notin> set (deleted evs)) (heap m)\<rparr>)"
    by auto
  let ?m1 = "m\<lparr>events := events m @ evs,
                heap := filter (\<lambda>r. fst r \<notin> set (deleted evs)) (heap m)\<rparr>"
  have del: "delete_array ?p ?m1 =
       Inr (m\<lparr>events := events m @ evs @ [Deleted ?p],
               heap := filter (\<lambda>r. fst r \<notin> set (deleted (evs @ [Deleted ?p]))) (heap m)\<rparr>)"
  proof -
    have "?p \<in> fst ` set (heap ?m1)" using pin pn by force
    then show ?thesis
      by (simp add: delete_array_def deleted_append conj_commute)
  qed
  have "RunDtorsOnBlock f footerEnd m =
        Inr (m\<lparr>events := events m @ evs @ [Deleted ?p],
               heap := filter (\<lambda>r. fst r \<notin> set (deleted (evs @ [Deleted ?p]))) (heap m)\<rparr>)"
    if "f \<ge> Suc f0" for f
  proof -
    from that obtain f' where f: "f = Suc f'" and f': "f' \<ge> f0" by (cases f) auto
    have e: "footerEnd - (8 + 9) = ?p" by simp
    show ?thesis unfolding f using walk_next.hyps walk_next.prems(1) ih f' del
      by (simp add: footer_size_def ptr_size_def RunDtorsOnBlock_null Let_def)
  qed
  then show ?case by (metis append.assoc)
next
  case (walk_object footerEnd mm n padding evs S)
  let ?o = "footerEnd - (int n + 9)"
  let ?m1 = "m\<lparr>events := events m @ [Destructed ?o]\<rparr>"
  from walk_object.IH [of ?m1] walk_object.prems obtain f0 where
    ih: "\<forall>f\<ge>f0. RunDtorsOnBlock f (?o - uint padding) ?m1 =
        Inr (?m1\<lparr>events := events ?m1 @ evs,
                heap := filter (\<lambda>r. fst r \<notin> set (deleted evs)) (heap ?m1)\<rparr>)"
    by auto
  have "RunDtorsOnBlock f footerEnd m =
        Inr (m\<lparr>events := events m @ Destructed ?o # evs,
               heap := filter (\<lambda>r. fst r \<notin> set (deleted (Destructed ?o # evs))) (heap m)\<rparr>)"
    if "f \<ge> Suc f0" for f
  proof -
    from that obtain f' where f: "f = Suc f'" and f': "f' \<ge> f0" by (cases f) auto
    show ?thesis unfolding f using walk_object.hyps walk_object.prems(1) ih f'
      by (simp add: footer_size_def ptr_size_def releaser_def Let_def)
  qed
  then show ?case by blast
qed

section \<open>The allocation steps keep the chain intact\<close>

lemma align_bounds:
  fixes x mask :: int
  assumes "0 \<le> x" "0 \<le> mask"
  shows "x \<le> (x + mask) AND NOT mask" and "(x + mask) AND NOT mask \<le> x + mask"
proof -
  have e: "(x + mask) AND NOT mask = (x + mask) - ((x + mask) AND mask)"
    by (rule and_not_eq_diff)
  have "0 \<le> (x + mask) AND mask" using assms by (intro AND_lower) simp
  moreover have "(x + mask) AND mask \<le> mask" using assms by (intro AND_upper2)
  ultimately show "x \<le> (x + mask) AND NOT mask" "(x + mask) AND NOT mask \<le> x + mask"
    unfolding e by linarith+
qed

lemma disjoint_from_covered:
  "disjoint_from a n rs \<Longrightarrow> {a ..< a + n} \<inter> covered rs = {}"
  by (induction rs) (auto simp: disjoint_from_def covered_def)

lemma covered_append: "covered (xs @ ys) = covered xs \<union> covered ys"
  by (auto simp: covered_def)

lemma covered_Cons: "covered ((b, k) # rs) = {b ..< b + k} \<union> covered rs"
  by (auto simp: covered_def)

lemma preserves_store_in:
  "P \<inter> A = {} \<Longrightarrow> {a ..< a + cell_size c} \<subseteq> A \<Longrightarrow> preserves P mm (store a c mm)"
  by (intro preserves_store) blast

lemma preserves_clobber_in:
  "P \<inter> A = {} \<Longrightarrow> {a ..< a + n} \<subseteq> A \<Longrightarrow> preserves P mm (clobber a n mm)"
  by (intro preserves_clobber) blast

lemma ensureSpace_inv:
  assumes inv: "arena_inv st m evs P"
    and r: "ensureSpace sz al nb (st, m) = Inr (st', m')"
  shows "\<exists>N. arena_inv st' m' (evs @ [Deleted nb]) (P \<union> {nb ..< nb + 17})
          \<and> fCursor st' = nb + 17 \<and> fDtorCursor st' = nb + 17 \<and> fEnd st' = nb + N
          \<and> heap m' = (nb, N) # heap m \<and> extern m' = extern m \<and> events m' = events m
          \<and> preserves P (mem m) (mem m') \<and> 0 < nb \<and> nb \<notin> P
          \<and> uint sz + 26 + (uint al - 1) \<le> N \<and> N \<le> 4294967295"
proof -
  from ensureSpace_InrD [OF r] obtain n st1 where
    s: "ensureSpace_size sz al st = Inr (n, st1)" and nb: "0 < nb"
    and dh: "disjoint_from nb (uint n) (heap m)" and de: "disjoint_from nb (uint n) (extern m)"
    and st': "st' = st1\<lparr>fCursor := nb + 17, fDtorCursor := nb + 17, fEnd := nb + uint n\<rparr>"
    and m': "m' = m\<lparr>heap := (nb, uint n) # heap m,
                    mem := store (nb + 16) (Pad 0) (store (nb + 8) (Action FnNextBlock)
                             (store nb (Ptr (fDtorCursor st)) (mem m)))\<rparr>"
    by auto
  note d = ensureSpace_size_InrD [OF s]
  define N where "N = uint n"
  have N: "uint sz + 26 + (uint al - 1) \<le> N" using d(3) unfolding N_def by simp
  have al: "0 \<le> uint al - 1"
  proof -
    have "uint al \<noteq> 0" using d(1) by (simp add: uint_0_iff)
    then show ?thesis using uint_ge_0 [of al] by linarith
  qed
  have N26: "26 \<le> N" using N al uint_ge_0 [of sz] by linarith
  have Nmax: "N \<le> 4294967295" using uint_lt2p [of n] unfolding N_def by simp
  from inv obtain S where S: "S \<subseteq> P" and w: "walk (mem m) (fDtorCursor st) evs S"
    and Pc: "P \<subseteq> covered (heap m @ extern m)"
    and dist: "distinct (deleted evs)" and dsub: "set (deleted evs) \<subseteq> fst ` set (heap m)"
    unfolding arena_inv_def by auto
  have fresh: "{nb ..< nb + N} \<inter> covered (heap m @ extern m) = {}"
    using disjoint_from_covered [OF dh] disjoint_from_covered [OF de]
    unfolding covered_append N_def by auto
  then have freshP: "P \<inter> {nb ..< nb + N} = {}" using Pc by blast
  have sub17: "{nb ..< nb + 17} \<subseteq> {nb ..< nb + N}" using N26 by simp
  have freshP17: "P \<inter> {nb ..< nb + 17} = {}" using freshP sub17 by blast
  let ?m1 = "store nb (Ptr (fDtorCursor st)) (mem m)"
  let ?m2 = "store (nb + 8) (Action FnNextBlock) ?m1"
  let ?m3 = "store (nb + 16) (Pad 0) ?m2"
  have p1: "preserves P (mem m) ?m1" by (rule preserves_store_in [OF freshP17]) simp
  have p2: "preserves P ?m1 ?m2" by (rule preserves_store_in [OF freshP17]) simp
  have p3: "preserves P ?m2 ?m3" by (rule preserves_store_in [OF freshP17]) simp
  have pres: "preserves P (mem m) ?m3" using p1 p2 p3 by (blast intro: preserves_trans)
  have memm': "mem m' = ?m3" using m' by simp
  have w': "walk ?m3 (fDtorCursor st) evs S" using w pres S by (rule walk_preserves)
  have c1: "?m3 (nb + 17 - 9) = Some (Action FnNextBlock)"
    by (simp add: store_def overlaps_def)
  have c2: "?m3 (nb + 17 - 1) = Some (Pad 0)"
    by (simp add: store_def overlaps_def)
  have c3: "?m3 (nb + 17 - 17) = Some (Ptr (fDtorCursor st))"
    by (simp add: store_def overlaps_def)
  have wn: "walk ?m3 (nb + 17) (evs @ [Deleted (nb + 17 - 17)]) ({nb + 17 - 17 ..< nb + 17} \<union> S)"
    using nb c1 c2 c3 w' by (intro walk_next) auto
  have "nb \<in> {nb ..< nb + 17}" by simp
  then have nbS: "nb \<notin> P" using freshP17 by blast
  have "set (deleted evs) \<subseteq> S" using w by (rule walk_deleted_in)
  then have nbdel: "nb \<notin> set (deleted evs)" using nbS S by auto
  have inv': "arena_inv st' m' (evs @ [Deleted nb]) (P \<union> {nb ..< nb + 17})"
    unfolding arena_inv_def
  proof (intro conjI)
    show "\<exists>Sa\<subseteq>P \<union> {nb..<nb + 17}. walk (mem m') (fDtorCursor st') (evs @ [Deleted nb]) Sa"
      using wn S unfolding memm' st' by (intro exI [of _ "{nb ..< nb + 17} \<union> S"]) auto
    have "{nb + 17 ..< nb + N} \<subseteq> {nb ..< nb + N}" by simp
    then have "P \<inter> {nb + 17 ..< nb + N} = {}" using freshP by blast
    moreover have "{nb ..< nb + 17} \<inter> {nb + 17 ..< nb + N} = {}" by auto
    ultimately show "(P \<union> {nb..<nb + 17}) \<inter> {fDtorCursor st'..<fEnd st'} = {}"
      unfolding st' N_def by (simp add: Int_Un_distrib2)
    show "P \<union> {nb..<nb + 17} \<subseteq> covered (heap m' @ extern m')"
      using Pc N26 unfolding m' N_def by (auto simp: covered_append covered_Cons)
    show "if fCursor st' = 0 then fDtorCursor st' = 0
          else 0 < fDtorCursor st' \<and> fDtorCursor st' \<le> fCursor st' \<and> fCursor st' \<le> fEnd st'
               \<and> {fDtorCursor st'..<fEnd st'} \<subseteq> covered (heap m' @ extern m')"
      using nb N26 unfolding st' m' N_def by (auto simp: covered_append covered_Cons)
    show "distinct (deleted (evs @ [Deleted nb]))"
      using dist nbdel by (simp add: deleted_append)
    show "set (deleted (evs @ [Deleted nb])) \<subseteq> fst ` set (heap m')"
      using dsub unfolding m' by (auto simp: deleted_append)
  qed
  show ?thesis
    using inv' nb N Nmax pres nbS unfolding memm' [symmetric]
    by (intro exI [of _ N]) (simp add: st' m' N_def)
qed

lemma uint_13: "uint (word_of_nat (footer_size + 4) :: u32) = 13"
  by (simp add: footer_size_def ptr_size_def)

lemma ToU32_InrD: "ToU32 v = Inr d \<Longrightarrow> 0 \<le> v \<and> v < 4294967296 \<and> d = word_of_int v \<and> uint d = v"
  by (auto simp: ToU32_def to_uint32_t_def uint_word_of_int take_bit_eq_mod split: if_splits)

lemma sint_small: "0 \<le> v \<Longrightarrow> v < 2147483648 \<Longrightarrow> sint (word_of_int v :: u32) = v"
  by (simp add: sint_uint uint_word_of_int take_bit_eq_mod signed_take_bit_int_eq_self)

text \<open>The state after a skip record has been installed at the cursor.\<close>

lemma skip_footer_inv:
  assumes inv: "arena_inv st m evs P"
    and c0: "fCursor st \<noteq> 0"
    and pend: "fCursor st - fDtorCursor st < 2147483648"
    and d: "ToU32 (fCursor st - fDtorCursor st) = Inr d"
    and f: "installFooter FnSkipPod 0 (installRaw (U32 d) (st, m)) = Inr (st', m')"
    and room: "fCursor st + 13 \<le> fEnd st"
  shows "arena_inv st' m' evs (P \<union> {fCursor st ..< fCursor st + 13})
     \<and> fCursor st' = fCursor st + 13 \<and> fDtorCursor st' = fCursor st + 13 \<and> fEnd st' = fEnd st
     \<and> heap m' = heap m \<and> extern m' = extern m \<and> events m' = events m
     \<and> preserves P (mem m) (mem m')
     \<and> fNextHeapAlloc st' = fNextHeapAlloc st \<and> fYetNextHeapAlloc st' = fYetNextHeapAlloc st"
proof -
  let ?c = "fCursor st" and ?dc = "fDtorCursor st"
  from inv c0 obtain S where S: "S \<subseteq> P" and w: "walk (mem m) ?dc evs S"
    and Pfree: "P \<inter> {?dc ..< fEnd st} = {}"
    and Pc: "P \<subseteq> covered (heap m @ extern m)"
    and cur: "0 < ?dc" "?dc \<le> ?c" "?c \<le> fEnd st"
    and cov: "{?dc ..< fEnd st} \<subseteq> covered (heap m @ extern m)"
    and dist: "distinct (deleted evs)" and dsub: "set (deleted evs) \<subseteq> fst ` set (heap m)"
    unfolding arena_inv_def by auto
  let ?m1 = "store ?c (U32 d) (mem m)"
  let ?m2 = "store (?c + 4) (Action FnSkipPod) ?m1"
  let ?m3 = "store (?c + 12) (Pad 0) ?m2"
  from f have st': "st' = st\<lparr>fCursor := ?c + 13, fDtorCursor := ?c + 13\<rparr>"
    and m': "m' = m\<lparr>mem := ?m3\<rparr>"
    by (auto simp: installFooter_def installRaw_def add.commute split: if_splits)
  have sub: "{?c ..< ?c + 13} \<subseteq> {?dc ..< fEnd st}" using cur room by simp
  have P13: "P \<inter> {?c ..< ?c + 13} = {}" using Pfree sub by blast
  have p1: "preserves P (mem m) ?m1" by (rule preserves_store_in [OF P13]) simp
  have p2: "preserves P ?m1 ?m2" by (rule preserves_store_in [OF P13]) simp
  have p3: "preserves P ?m2 ?m3" by (rule preserves_store_in [OF P13]) simp
  have pres: "preserves P (mem m) ?m3" using p1 p2 p3 by (blast intro: preserves_trans)
  have w': "walk ?m3 ?dc evs S" using w pres S by (rule walk_preserves)
  from ToU32_InrD [OF d] have dv: "d = word_of_int (?c - ?dc)" by simp
  have sd: "sint d = ?c - ?dc" unfolding dv using cur pend by (intro sint_small) auto
  have c1: "?m3 (?c + 13 - 9) = Some (Action FnSkipPod)"
    by (simp add: store_def overlaps_def)
  have c2: "?m3 (?c + 13 - 1) = Some (Pad 0)"
    by (simp add: store_def overlaps_def)
  have c3: "?m3 (?c + 13 - 13) = Some (U32 d)"
    by (simp add: store_def overlaps_def)
  have "?c + 13 - 13 - sint d = ?dc" using sd by simp
  then have ws: "walk ?m3 (?c + 13) evs ({?c + 13 - 13 ..< ?c + 13} \<union> S)"
    using cur c1 c2 c3 w' by (intro walk_skip [where skip = d]) auto
  have inv': "arena_inv st' m' evs (P \<union> {?c ..< ?c + 13})"
    unfolding arena_inv_def
  proof (intro conjI)
    show "\<exists>Sa\<subseteq>P \<union> {?c ..< ?c + 13}. walk (mem m') (fDtorCursor st') evs Sa"
      using ws S unfolding m' st' by (intro exI [of _ "{?c ..< ?c + 13} \<union> S"]) auto
    have "{?c + 13 ..< fEnd st} \<subseteq> {?dc ..< fEnd st}" using cur by simp
    then have "P \<inter> {?c + 13 ..< fEnd st} = {}" using Pfree by blast
    moreover have "{?c ..< ?c + 13} \<inter> {?c + 13 ..< fEnd st} = {}" by auto
    ultimately show "(P \<union> {?c ..< ?c + 13}) \<inter> {fDtorCursor st'..<fEnd st'} = {}"
      unfolding st' by (simp add: Int_Un_distrib2)
    show "P \<union> {?c ..< ?c + 13} \<subseteq> covered (heap m' @ extern m')"
      using Pc sub cov unfolding m' by auto
    have "{?c + 13 ..< fEnd st} \<subseteq> {?dc ..< fEnd st}" using cur by simp
    then show "if fCursor st' = 0 then fDtorCursor st' = 0
          else 0 < fDtorCursor st' \<and> fDtorCursor st' \<le> fCursor st' \<and> fCursor st' \<le> fEnd st'
               \<and> {fDtorCursor st'..<fEnd st'} \<subseteq> covered (heap m' @ extern m')"
      using cur room cov unfolding st' m' by auto
    show "distinct (deleted evs)" by fact
    show "set (deleted evs) \<subseteq> fst ` set (heap m')" using dsub unfolding m' by simp
  qed
  show ?thesis using inv' pres by (simp add: st' m')
qed

lemma skipOverhead_val: "(word_of_nat (footer_size + 4) :: u32) = 13"
  by (simp add: footer_size_def ptr_size_def)

lemma uint_plus_13:
  "uint sif + 13 \<le> 4294967295 \<Longrightarrow> uint (sif + 13) = uint sif + 13" for sif :: u32
  using uint_add_no_wrap [of sif 13] by simp

text \<open>One pass through \<open>restart\<close>, with the constants evaluated.\<close>

lemma allocObjectWithFooter_unfold:
  "allocObjectWithFooter sif al blocks (st, m) =
     (if fCursor st = 0 \<or>
         fEnd st - ((fCursor st + (if fCursor st \<noteq> fDtorCursor st then 13 else 0) + uint (al - 1))
                     AND NOT (uint (al - 1)))
           < uint (sif + (if fCursor st \<noteq> fDtorCursor st then 13 else 0))
      then (case blocks of
              [] \<Rightarrow> Inl OutOfMemory
            | nb # bl \<Rightarrow>
                (case ensureSpace (sif + (if fCursor st \<noteq> fDtorCursor st then 13 else 0)) al nb
                        (st, m) of
                   Inl e \<Rightarrow> Inl e
                 | Inr sm' \<Rightarrow> allocObjectWithFooter sif al bl sm'))
      else if fCursor st \<noteq> fDtorCursor st
      then (case ToU32 (fCursor st - fDtorCursor st) of
              Inl e \<Rightarrow> Inl e
            | Inr d \<Rightarrow>
                (case installFooter FnSkipPod 0 (installRaw (U32 d) (st, m)) of
                   Inl e \<Rightarrow> Inl e
                 | Inr sm' \<Rightarrow>
                     Inr ((fCursor st + 13 + uint (al - 1)) AND NOT (uint (al - 1)), blocks, sm')))
      else Inr ((fCursor st + uint (al - 1)) AND NOT (uint (al - 1)), blocks, st, m))"
  apply (subst allocObjectWithFooter.simps)
  apply (unfold skipOverhead_val Let_def)
  apply (simp add: AssertRelease_def cong: list.case_cong sum.case_cong)
  done

text \<open>The pass that needs no new block.\<close>

lemma alloc_nogrow:
  assumes r0: "allocObjectWithFooter sif al blocks (st, m) = Inr (a, blocks', st', m')"
    and inv: "arena_inv st m evs P"
    and pend: "fCursor st - fDtorCursor st < 2147483648"
    and fit: "uint sif + 13 \<le> 4294967295"
    and nogrow: "\<not> (fCursor st = 0 \<or>
         fEnd st - ((fCursor st + (if fCursor st \<noteq> fDtorCursor st then 13 else 0) + uint (al - 1))
                     AND NOT (uint (al - 1)))
           < uint (sif + (if fCursor st \<noteq> fDtorCursor st then 13 else 0)))"
  shows "\<exists>nbs P' hs. blocks = nbs @ blocks' \<and> arena_inv st' m' (evs @ map Deleted nbs) P'
     \<and> P \<subseteq> P' \<and> preserves P (mem m) (mem m')
     \<and> fCursor st' \<noteq> 0 \<and> fDtorCursor st' = fCursor st' \<and> fCursor st' \<le> a
     \<and> a - fCursor st' \<le> uint (al - 1) \<and> a + uint sif \<le> fEnd st'
     \<and> heap m' = hs @ heap m \<and> map fst hs = rev nbs \<and> set nbs \<inter> P = {}
     \<and> extern m' = extern m \<and> events m' = events m"
proof -
  note r = r0 [unfolded allocObjectWithFooter_unfold]
  let ?c = "fCursor st" and ?dc = "fDtorCursor st"
  let ?mask = "uint (al - 1)"
  have mask0: "0 \<le> ?mask" by simp
  from nogrow have c0: "?c \<noteq> 0" by simp
  from inv c0 have cur: "0 < ?dc" "?dc \<le> ?c" "?c \<le> fEnd st"
    unfolding arena_inv_def by auto
  show ?thesis
  proof (cases "?c = ?dc")
    case True
    let ?o = "(?c + ?mask) AND NOT ?mask"
    from r nogrow True have res: "a = ?o" "blocks' = blocks" "st' = st" "m' = m"
      by (auto split: if_splits)
    from nogrow True have fits: "uint sif \<le> fEnd st - ?o" by simp
    have b: "?c \<le> ?o" "?o \<le> ?c + ?mask" using align_bounds [of ?c ?mask] cur mask0 by auto
    show ?thesis
      using inv True c0 b fits unfolding res
      by (intro exI [of _ "[]"] exI [of _ P]) (auto simp: preserves_refl)
  next
    case False
    let ?o = "(?c + 13 + ?mask) AND NOT ?mask"
    have ts: "uint (sif + 13) = uint sif + 13"
      using fit by (rule uint_plus_13)
    from nogrow False have fits: "uint sif + 13 \<le> fEnd st - ?o" by (simp add: ts)
    from r nogrow False obtain d where d: "ToU32 (?c - ?dc) = Inr d"
      and f: "installFooter FnSkipPod 0 (installRaw (U32 d) (st, m)) = Inr (st', m')"
      and res: "a = ?o" "blocks' = blocks"
      by (auto split: if_splits sum.splits)
    have b: "?c + 13 \<le> ?o" "?o \<le> ?c + 13 + ?mask"
      using align_bounds [of "?c + 13" ?mask] cur mask0 by auto
    have room: "?c + 13 \<le> fEnd st" using b fits uint_ge_0 [of sif] by linarith
    note k = skip_footer_inv [OF inv c0 pend d f room]
    have c0': "fCursor st' \<noteq> 0" using k cur by simp
    show ?thesis
      using k b fits c0' unfolding res
      by (intro exI [of _ "[]"] exI [of _ "P \<union> {?c ..< ?c + 13}"]) auto
  qed
qed

text \<open>
  What \<open>allocObjectWithFooter\<close> leaves behind when it returns: the chain is intact,
  extended by the blocks taken from the system; no trivially destructible bytes are
  pending; the returned address is aligned up from the cursor by less than the alignment,
  and the object with its footer fits before the end of the block.
\<close>

lemma allocObjectWithFooter_inv:
  assumes "allocObjectWithFooter sif al blocks (st, m) = Inr (a, blocks', st', m')"
    and "arena_inv st m evs P"
    and "fCursor st - fDtorCursor st < 2147483648"
    and "uint sif + 13 \<le> 4294967295"
  shows "\<exists>nbs P' hs. blocks = nbs @ blocks' \<and> arena_inv st' m' (evs @ map Deleted nbs) P'
     \<and> P \<subseteq> P' \<and> preserves P (mem m) (mem m')
     \<and> fCursor st' \<noteq> 0 \<and> fDtorCursor st' = fCursor st' \<and> fCursor st' \<le> a
     \<and> a - fCursor st' \<le> uint (al - 1) \<and> a + uint sif \<le> fEnd st'
     \<and> heap m' = hs @ heap m \<and> map fst hs = rev nbs \<and> set nbs \<inter> P = {}
     \<and> extern m' = extern m \<and> events m' = events m"
  using assms
proof (induction blocks arbitrary: st m evs P)
  case (Nil st m evs P)
  note r = Nil.prems(1) [unfolded allocObjectWithFooter_unfold]
    and inv = Nil.prems(2) and pend = Nil.prems(3) and fit = Nil.prems(4)
  let ?c = "fCursor st" and ?dc = "fDtorCursor st"
  let ?mask = "uint (al - 1)"
  let ?so = "(if ?c \<noteq> ?dc then 13 else 0) :: int"
  let ?o = "(?c + ?so + ?mask) AND NOT ?mask"
  from r have nogrow: "\<not> (?c = 0 \<or> fEnd st - ?o < uint (sif + (if ?c \<noteq> ?dc then 13 else 0)))"
    by (auto split: if_splits)
  from Nil.prems show ?case
    by (rule alloc_nogrow [OF _ _ _ _ nogrow])
next
  case (Cons nb bl st m evs P)
  note r = Cons.prems(1) [unfolded allocObjectWithFooter_unfold]
    and inv = Cons.prems(2) and pend = Cons.prems(3) and fit = Cons.prems(4)
  let ?c = "fCursor st" and ?dc = "fDtorCursor st"
  let ?mask = "uint (al - 1)"
  let ?so = "(if ?c \<noteq> ?dc then 13 else 0) :: int"
  let ?o = "(?c + ?so + ?mask) AND NOT ?mask"
  show ?case
  proof (cases "?c = 0 \<or> fEnd st - ?o < uint (sif + (if ?c \<noteq> ?dc then 13 else 0))")
    case True
    from r True obtain st1 m1 where
      e: "ensureSpace (sif + (if ?c \<noteq> ?dc then 13 else 0)) al nb (st, m) = Inr (st1, m1)"
      and rec: "allocObjectWithFooter sif al bl (st1, m1) = Inr (a, blocks', st', m')"
      by (auto split: if_splits sum.splits)
    from ensureSpace_inv [OF inv e] obtain N where
      inv1: "arena_inv st1 m1 (evs @ [Deleted nb]) (P \<union> {nb ..< nb + 17})"
      and c1: "fCursor st1 = nb + 17" "fDtorCursor st1 = nb + 17"
      and h1: "heap m1 = (nb, N) # heap m" "extern m1 = extern m" "events m1 = events m"
      and p1: "preserves P (mem m) (mem m1)" and nbP: "nb \<notin> P"
      by auto
    have pend1: "fCursor st1 - fDtorCursor st1 < 2147483648" using c1 by simp
    from Cons.IH [OF rec inv1 pend1 fit] obtain nbs P' hs where
      k: "bl = nbs @ blocks'" "arena_inv st' m' ((evs @ [Deleted nb]) @ map Deleted nbs) P'"
        "P \<union> {nb ..< nb + 17} \<subseteq> P'" "preserves (P \<union> {nb ..< nb + 17}) (mem m1) (mem m')"
        "fCursor st' \<noteq> 0" "fDtorCursor st' = fCursor st'" "fCursor st' \<le> a"
        "a - fCursor st' \<le> uint (al - 1)" "a + uint sif \<le> fEnd st'"
        "heap m' = hs @ heap m1" "map fst hs = rev nbs"
        "extern m' = extern m1" "events m' = events m1"
        "set nbs \<inter> (P \<union> {nb ..< nb + 17}) = {}"
      by blast
    have pp: "preserves P (mem m) (mem m')"
      using p1 preserves_mono [OF k(4), of P] by (blast intro: preserves_trans)
    have "set (nb # nbs) \<inter> P = {}" using k nbP by auto
    then show ?thesis
      using k pp h1
      by (intro exI [of _ "nb # nbs"] exI [of _ P'] exI [of _ "hs @ [(nb, N)]"]) auto
  next
    case False
    from Cons.prems show ?thesis
      by (rule alloc_nogrow [OF _ _ _ _ False])
  qed
qed

lemma allocObject_unfold:
  "allocObject sz al blocks (st, m) =
     (if fCursor st = 0 \<or>
         fEnd st - ((fCursor st + uint (al - 1)) AND NOT (uint (al - 1))) < uint sz
      then (case blocks of
              [] \<Rightarrow> Inl OutOfMemory
            | nb # bl \<Rightarrow>
                (case ensureSpace sz al nb (st, m) of
                   Inl e \<Rightarrow> Inl e
                 | Inr sm' \<Rightarrow> allocObject sz al bl sm'))
      else Inr ((fCursor st + uint (al - 1)) AND NOT (uint (al - 1)), blocks, st, m))"
  apply (subst allocObject.simps)
  apply (unfold Let_def)
  apply (simp cong: list.case_cong sum.case_cong)
  done

lemma allocObject_nogrow:
  assumes r0: "allocObject sz al blocks (st, m) = Inr (a, blocks', st', m')"
    and inv: "arena_inv st m evs P"
    and nogrow: "\<not> (fCursor st = 0 \<or>
         fEnd st - ((fCursor st + uint (al - 1)) AND NOT (uint (al - 1))) < uint sz)"
  shows "\<exists>nbs P' hs. blocks = nbs @ blocks' \<and> arena_inv st' m' (evs @ map Deleted nbs) P'
     \<and> P \<subseteq> P' \<and> preserves P (mem m) (mem m')
     \<and> fCursor st' \<noteq> 0 \<and> fCursor st' \<le> a \<and> a + uint sz \<le> fEnd st'
     \<and> heap m' = hs @ heap m \<and> map fst hs = rev nbs \<and> set nbs \<inter> P = {}
     \<and> extern m' = extern m \<and> events m' = events m"
proof -
  note r = r0 [unfolded allocObject_unfold]
  let ?c = "fCursor st" and ?mask = "uint (al - 1)"
  let ?o = "(?c + ?mask) AND NOT ?mask"
  from nogrow have c0: "?c \<noteq> 0" by simp
  from inv c0 have cur: "0 < fDtorCursor st" "fDtorCursor st \<le> ?c"
    unfolding arena_inv_def by auto
  from r nogrow have res: "a = ?o" "blocks' = blocks" "st' = st" "m' = m"
    by (auto split: if_splits)
  from nogrow have fits: "uint sz \<le> fEnd st - ?o" by simp
  have b: "?c \<le> ?o" using align_bounds [of ?c ?mask] cur by auto
  show ?thesis
    using inv c0 b fits unfolding res
    by (intro exI [of _ "[]"] exI [of _ P]) (auto simp: preserves_refl)
qed

lemma allocObject_inv:
  assumes "allocObject sz al blocks (st, m) = Inr (a, blocks', st', m')"
    and "arena_inv st m evs P"
  shows "\<exists>nbs P' hs. blocks = nbs @ blocks' \<and> arena_inv st' m' (evs @ map Deleted nbs) P'
     \<and> P \<subseteq> P' \<and> preserves P (mem m) (mem m')
     \<and> fCursor st' \<noteq> 0 \<and> fCursor st' \<le> a \<and> a + uint sz \<le> fEnd st'
     \<and> heap m' = hs @ heap m \<and> map fst hs = rev nbs \<and> set nbs \<inter> P = {}
     \<and> extern m' = extern m \<and> events m' = events m"
  using assms
proof (induction blocks arbitrary: st m evs P)
  case (Nil st m evs P)
  note r = Nil.prems(1) [unfolded allocObject_unfold]
  from r have nogrow: "\<not> (fCursor st = 0 \<or>
         fEnd st - ((fCursor st + uint (al - 1)) AND NOT (uint (al - 1))) < uint sz)"
    by (auto split: if_splits)
  from Nil.prems show ?case
    by (rule allocObject_nogrow [OF _ _ nogrow])
next
  case (Cons nb bl st m evs P)
  note r = Cons.prems(1) [unfolded allocObject_unfold] and inv = Cons.prems(2)
  show ?case
  proof (cases "fCursor st = 0 \<or>
         fEnd st - ((fCursor st + uint (al - 1)) AND NOT (uint (al - 1))) < uint sz")
    case True
    from r True obtain st1 m1 where
      e: "ensureSpace sz al nb (st, m) = Inr (st1, m1)"
      and rec: "allocObject sz al bl (st1, m1) = Inr (a, blocks', st', m')"
      by (auto split: if_splits sum.splits)
    from ensureSpace_inv [OF inv e] obtain N where
      inv1: "arena_inv st1 m1 (evs @ [Deleted nb]) (P \<union> {nb ..< nb + 17})"
      and h1: "heap m1 = (nb, N) # heap m" "extern m1 = extern m" "events m1 = events m"
      and p1: "preserves P (mem m) (mem m1)" and nbP: "nb \<notin> P"
      by auto
    from Cons.IH [OF rec inv1] obtain nbs P' hs where
      k: "bl = nbs @ blocks'" "arena_inv st' m' ((evs @ [Deleted nb]) @ map Deleted nbs) P'"
        "P \<union> {nb ..< nb + 17} \<subseteq> P'" "preserves (P \<union> {nb ..< nb + 17}) (mem m1) (mem m')"
        "fCursor st' \<noteq> 0" "fCursor st' \<le> a" "a + uint sz \<le> fEnd st'"
        "heap m' = hs @ heap m1" "map fst hs = rev nbs"
        "extern m' = extern m1" "events m' = events m1"
        "set nbs \<inter> (P \<union> {nb ..< nb + 17}) = {}"
      by blast
    have pp: "preserves P (mem m) (mem m')"
      using p1 preserves_mono [OF k(4), of P] by (blast intro: preserves_trans)
    have "set (nb # nbs) \<inter> P = {}" using k nbP by auto
    then show ?thesis
      using k pp h1
      by (intro exI [of _ "nb # nbs"] exI [of _ P'] exI [of _ "hs @ [(nb, N)]"]) auto
  next
    case False
    from Cons.prems show ?thesis
      by (rule allocObject_nogrow [OF _ _ False])
  qed
qed

lemma makeBytes_inv:
  assumes r: "makeBytes sz al blocks (st, m) = Inr (a, blocks', st', m')"
    and inv: "arena_inv st m evs P"
  shows "\<exists>nbs P' hs. blocks = nbs @ blocks' \<and> arena_inv st' m' (evs @ map Deleted nbs) P'
     \<and> P \<subseteq> P' \<and> preserves P (mem m) (mem m')
     \<and> heap m' = hs @ heap m \<and> map fst hs = rev nbs \<and> set nbs \<inter> P = {}
     \<and> extern m' = extern m \<and> events m' = events m"
proof -
  from r obtain st1 m1 where
    al: "allocObject sz al blocks (st, m) = Inr (a, blocks', st1, m1)"
    and st': "st' = st1\<lparr>fCursor := a + uint sz\<rparr>"
    and m': "m' = m1\<lparr>mem := clobber a (uint sz) (mem m1)\<rparr>"
    by (auto simp: makeBytes_def split: sum.splits)
  from allocObject_inv [OF al inv] obtain nbs P' hs where
    k: "blocks = nbs @ blocks'" "arena_inv st1 m1 (evs @ map Deleted nbs) P'"
      "P \<subseteq> P'" "preserves P (mem m) (mem m1)"
      "fCursor st1 \<noteq> 0" "fCursor st1 \<le> a" "a + uint sz \<le> fEnd st1"
      "heap m1 = hs @ heap m" "map fst hs = rev nbs"
      "extern m1 = extern m" "events m1 = events m" "set nbs \<inter> P = {}"
    by blast
  from k(2,5) obtain S where S: "S \<subseteq> P'"
    and w: "walk (mem m1) (fDtorCursor st1) (evs @ map Deleted nbs) S"
    and Pfree: "P' \<inter> {fDtorCursor st1 ..< fEnd st1} = {}"
    and Pc: "P' \<subseteq> covered (heap m1 @ extern m1)"
    and cur: "0 < fDtorCursor st1" "fDtorCursor st1 \<le> fCursor st1"
    and cov: "{fDtorCursor st1 ..< fEnd st1} \<subseteq> covered (heap m1 @ extern m1)"
    and dist: "distinct (deleted (evs @ map Deleted nbs))"
    and dsub: "set (deleted (evs @ map Deleted nbs)) \<subseteq> fst ` set (heap m1)"
    unfolding arena_inv_def by auto
  have sub: "{a ..< a + uint sz} \<subseteq> {fDtorCursor st1 ..< fEnd st1}"
    using cur k(6,7) by simp
  have pc: "preserves P' (mem m1) (mem m')"
    unfolding m' using preserves_clobber_in [OF Pfree sub] by simp
  have w': "walk (mem m') (fDtorCursor st1) (evs @ map Deleted nbs) S"
    using w pc S by (rule walk_preserves)
  have n0: "a + uint sz \<noteq> 0" "fDtorCursor st1 \<le> a + uint sz"
    using cur k(6) uint_ge_0 [of sz] by linarith+
  have inv': "arena_inv st' m' (evs @ map Deleted nbs) P'"
    unfolding arena_inv_def
    using w' S Pfree Pc cur cov dist dsub k(7) n0
    by (auto simp: st' m')
  have pp: "preserves P (mem m) (mem m')"
    using k(4) preserves_mono [OF pc k(3)] by (rule preserves_trans)
  show ?thesis
    using k(1,3,8,9,10,11,12) inv' pp
    by (intro exI [of _ nbs] exI [of _ P'] exI [of _ hs]) (simp add: m')
qed

lemma uint_plus_9:
  "uint sz + 9 \<le> 4294967295 \<Longrightarrow> uint (sz + word_of_nat footer_size) = uint sz + 9" for sz :: u32
  using uint_add_no_wrap [of sz 9] by (simp add: footer_size_def ptr_size_def)

lemma uint_ucast_pad: "unat p < 256 \<Longrightarrow> uint (ucast p :: u8) = uint p" for p :: u32
proof -
  assume a: "unat p < 256"
  have "uint p = int (unat p)" by (rule uint_nat)
  with a have "uint p < 256" by linarith
  then have "uint p < 2 ^ 8" by simp
  moreover have "0 \<le> uint p" by simp
  ultimately have "take_bit 8 (uint p) = uint p" by (intro take_bit_int_eq_self)
  then show ?thesis by (simp add: unsigned_ucast_eq)
qed

lemma ivl_sub: "c \<le> a \<Longrightarrow> b \<le> d \<Longrightarrow> {a ..< b} \<subseteq> {c ..< d}" for a b c d :: int
  by auto

lemma makeObject_inv:
  assumes r: "makeObject sz al blocks (st, m) = Inr (a, blocks', st', m')"
    and inv: "arena_inv st m evs P"
    and pend: "fCursor st - fDtorCursor st < 2147483648"
    and fit: "uint sz + 22 \<le> 4294967295"
  shows "\<exists>nbs P' hs. blocks = nbs @ blocks'
     \<and> arena_inv st' m' (Destructed a # evs @ map Deleted nbs) P'
     \<and> P \<subseteq> P' \<and> preserves P (mem m) (mem m')
     \<and> fDtorCursor st' = fCursor st'
     \<and> heap m' = hs @ heap m \<and> map fst hs = rev nbs \<and> set nbs \<inter> P = {}
     \<and> extern m' = extern m \<and> events m' = events m"
proof -
  let ?sif = "sz + word_of_nat footer_size"
  have us: "uint ?sif = uint sz + 9" using fit by (intro uint_plus_9) simp
  from r obtain st1 m1 padding where
    al: "allocObjectWithFooter ?sif al blocks (st, m) = Inr (a, blocks', st1, m1)"
    and pd: "ToU32 (a - fCursor st1) = Inr padding"
    and f: "installFooter (FnReleaser (unat sz)) padding
              (st1\<lparr>fCursor := a + uint sz\<rparr>, m1\<lparr>mem := clobber a (uint sz) (mem m1)\<rparr>)
            = Inr (st', m')"
    by (auto simp: makeObject_def split: sum.splits)
  have fit13: "uint ?sif + 13 \<le> 4294967295" using fit us by simp
  from allocObjectWithFooter_inv [OF al inv pend fit13] obtain nbs P' hs where
    k: "blocks = nbs @ blocks'" "arena_inv st1 m1 (evs @ map Deleted nbs) P'"
      "P \<subseteq> P'" "preserves P (mem m) (mem m1)"
      "fCursor st1 \<noteq> 0" "fDtorCursor st1 = fCursor st1" "fCursor st1 \<le> a"
      "a + uint ?sif \<le> fEnd st1"
      "heap m1 = hs @ heap m" "map fst hs = rev nbs"
      "extern m1 = extern m" "events m1 = events m" "set nbs \<inter> P = {}"
    by blast
  let ?dc = "fDtorCursor st1" and ?e = "a + uint sz"
  from k(2,5) obtain S where S: "S \<subseteq> P'"
    and w: "walk (mem m1) ?dc (evs @ map Deleted nbs) S"
    and Pfree: "P' \<inter> {?dc ..< fEnd st1} = {}"
    and Pc: "P' \<subseteq> covered (heap m1 @ extern m1)"
    and cur: "0 < ?dc"
    and cov: "{?dc ..< fEnd st1} \<subseteq> covered (heap m1 @ extern m1)"
    and dist: "distinct (deleted (evs @ map Deleted nbs))"
    and dsub: "set (deleted (evs @ map Deleted nbs)) \<subseteq> fst ` set (heap m1)"
    unfolding arena_inv_def by auto
  have sz0: "0 \<le> uint sz" by simp
  have room: "?e + 9 \<le> fEnd st1" using k(8) us by simp
  have ord: "?dc \<le> a" "a \<le> ?e" using k(6,7) sz0 by linarith+
  let ?m2 = "clobber a (uint sz) (mem m1)"
  let ?m3 = "store ?e (Action (FnReleaser (unat sz))) ?m2"
  let ?m4 = "store (?e + 8) (Pad (ucast padding)) ?m3"
  from f have small: "unat padding < 256"
    and st': "st' = st1\<lparr>fCursor := ?e + 9, fDtorCursor := ?e + 9\<rparr>"
    and m': "m' = m1\<lparr>mem := ?m4\<rparr>"
    by (auto simp: installFooter_def installRaw_def add.commute add.left_commute
        split: if_splits)
  have subo: "{a ..< a + uint sz} \<subseteq> {?dc ..< fEnd st1}"
    by (rule ivl_sub) (use ord room in linarith)+
  have subf: "{?e ..< ?e + 9} \<subseteq> {?dc ..< fEnd st1}"
    by (rule ivl_sub) (use ord room in linarith)+
  have subr: "{?e + 9 ..< fEnd st1} \<subseteq> {?dc ..< fEnd st1}"
    by (rule ivl_sub) (use ord room in linarith)+
  have Pf: "P' \<inter> {?e ..< ?e + 9} = {}" using Pfree subf by blast
  have p2: "preserves P' (mem m1) ?m2" by (rule preserves_clobber_in [OF Pfree subo])
  have p3: "preserves P' ?m2 ?m3" by (rule preserves_store_in [OF Pf]) simp
  have p4: "preserves P' ?m3 ?m4" by (rule preserves_store_in [OF Pf]) simp
  have pres: "preserves P' (mem m1) ?m4" using p2 p3 p4 by (blast intro: preserves_trans)
  have w': "walk ?m4 ?dc (evs @ map Deleted nbs) S" using w pres S by (rule walk_preserves)
  have c1: "?m4 (?e + 9 - 9) = Some (Action (FnReleaser (unat sz)))"
    by (simp add: store_def overlaps_def)
  have c2: "?m4 (?e + 9 - 1) = Some (Pad (ucast padding))"
    by (simp add: store_def overlaps_def)
  have pv: "uint padding = a - fCursor st1" using ToU32_InrD [OF pd] by blast
  have up: "uint (ucast padding :: u8) = a - fCursor st1"
    using uint_ucast_pad [OF small] pv by (simp only:)
  have n: "int (unat sz) = uint sz" by (rule uint_nat [symmetric])
  have start: "?e + 9 - (int (unat sz) + 9) = a" unfolding n by simp
  have nxt: "?e + 9 - (int (unat sz) + 9) - uint (ucast padding :: u8) = ?dc"
    unfolding start up using k(6) by simp
  have e0: "?e + 9 \<noteq> 0" using cur ord by linarith
  have wo: "walk ?m4 (?e + 9) (Destructed (?e + 9 - (int (unat sz) + 9)) # evs @ map Deleted nbs)
      ({?e + 9 - 9 ..< ?e + 9} \<union> S)"
    using e0 c1 c2 w' unfolding nxt [symmetric] by (rule walk_object)
  have inv': "arena_inv st' m' (Destructed a # evs @ map Deleted nbs) (P' \<union> {?e ..< ?e + 9})"
    unfolding arena_inv_def
  proof (intro conjI)
    show "\<exists>Sa\<subseteq>P' \<union> {?e ..< ?e + 9}.
        walk (mem m') (fDtorCursor st') (Destructed a # evs @ map Deleted nbs) Sa"
      using wo S unfolding m' st' start
      by (intro exI [of _ "{?e ..< ?e + 9} \<union> S"]) auto
    have "P' \<inter> {?e + 9 ..< fEnd st1} = {}" using Pfree subr by blast
    moreover have "{?e ..< ?e + 9} \<inter> {?e + 9 ..< fEnd st1} = {}" by auto
    ultimately show "(P' \<union> {?e ..< ?e + 9}) \<inter> {fDtorCursor st'..<fEnd st'} = {}"
      unfolding st' by (simp add: Int_Un_distrib2)
    show "P' \<union> {?e ..< ?e + 9} \<subseteq> covered (heap m' @ extern m')"
      using Pc subf cov unfolding m' by auto
    have pos: "0 < ?e + 9" using cur ord by linarith
    have cov': "{?e + 9 ..< fEnd st1} \<subseteq> covered (heap m1 @ extern m1)"
      using subr cov by blast
    show "if fCursor st' = 0 then fDtorCursor st' = 0
          else 0 < fDtorCursor st' \<and> fDtorCursor st' \<le> fCursor st' \<and> fCursor st' \<le> fEnd st'
               \<and> {fDtorCursor st'..<fEnd st'} \<subseteq> covered (heap m' @ extern m')"
      using pos cov' room e0 unfolding st' m' by simp
    show "distinct (deleted (Destructed a # evs @ map Deleted nbs))" using dist by simp
    show "set (deleted (Destructed a # evs @ map Deleted nbs)) \<subseteq> fst ` set (heap m')"
      using dsub unfolding m' by simp
  qed
  have pp: "preserves P (mem m) (mem m')"
    using k(4) preserves_mono [OF pres k(3)] unfolding m' by (simp add: preserves_trans)
  show ?thesis
    using k(1,3,9,10,11,12,13) inv' pp
    by (intro exI [of _ nbs] exI [of _ "P' \<union> {?e ..< ?e + 9}"] exI [of _ hs])
       (auto simp: m' st')
qed

lemma make_inv:
  assumes r: "make rq blocks (st, m) = Inr (a, blocks', st', m')"
    and inv: "arena_inv st m evs P"
    and pend: "fCursor st - fDtorCursor st < 2147483648"
    and ok: "request_ok rq"
  shows "\<exists>nbs P' hs. blocks = nbs @ blocks'
     \<and> arena_inv st' m' (map Destructed (objects_of [rq] [a]) @ evs @ map Deleted nbs) P'
     \<and> P \<subseteq> P' \<and> preserves P (mem m) (mem m')
     \<and> ((\<exists>sz al. rq = Object sz al) \<longrightarrow> fDtorCursor st' = fCursor st')
     \<and> heap m' = hs @ heap m \<and> map fst hs = rev nbs \<and> set nbs \<inter> P = {}
     \<and> extern m' = extern m \<and> events m' = events m"
proof (cases rq)
  case (Object sz al)
  with r ok have r': "makeObject sz al blocks (st, m) = Inr (a, blocks', st', m')"
    and fit: "uint sz + 22 \<le> 4294967295" by auto
  from makeObject_inv [OF r' inv pend fit] show ?thesis unfolding Object by simp
next
  case (Bytes sz al)
  with r have r': "makeBytes sz al blocks (st, m) = Inr (a, blocks', st', m')" by simp
  from makeBytes_inv [OF r' inv] show ?thesis unfolding Bytes by simp
qed

lemma run_inv:
  assumes "run reqs blocks (st, m) = Inr (as, blocks', st', m')"
    and "arena_inv st m evs P"
    and "fCursor st - fDtorCursor st < 2147483648"
    and "pods_small reqs blocks (st, m) \<or> (\<forall>r\<in>set reqs. \<exists>sz al. r = Object sz al)"
    and "\<forall>r\<in>set reqs. request_ok r"
  shows "\<exists>nbs P' hs. blocks = nbs @ blocks'
     \<and> arena_inv st' m' (map Destructed (rev (objects_of reqs as)) @ evs @ map Deleted nbs) P'
     \<and> P \<subseteq> P' \<and> preserves P (mem m) (mem m')
     \<and> heap m' = hs @ heap m \<and> map fst hs = rev nbs \<and> set nbs \<inter> P = {}
     \<and> extern m' = extern m \<and> events m' = events m \<and> length as = length reqs"
  using assms
proof (induction reqs arbitrary: blocks st m evs P as)
  case Nil
  then show ?case
    by (intro exI [of _ "[]"] exI [of _ P]) (auto simp: preserves_refl)
next
  case (Cons rq rs)
  from Cons.prems(1) obtain a bl1 st1 m1 as' where
    mk: "make rq blocks (st, m) = Inr (a, bl1, st1, m1)"
    and rest: "run rs bl1 (st1, m1) = Inr (as', blocks', st', m')"
    and as: "as = a # as'"
    by (auto split: sum.splits)
  have ok: "request_ok rq" and oks: "\<forall>r\<in>set rs. request_ok r" using Cons.prems(5) by auto
  from make_inv [OF mk Cons.prems(2,3) ok] obtain nbs1 P1 hs1 where
    k1: "blocks = nbs1 @ bl1"
      "arena_inv st1 m1 (map Destructed (objects_of [rq] [a]) @ evs @ map Deleted nbs1) P1"
      "P \<subseteq> P1" "preserves P (mem m) (mem m1)"
      "(\<exists>sz al. rq = Object sz al) \<longrightarrow> fDtorCursor st1 = fCursor st1"
      "heap m1 = hs1 @ heap m" "map fst hs1 = rev nbs1"
      "extern m1 = extern m" "events m1 = events m" "set nbs1 \<inter> P = {}"
    by blast
  have pend1: "fCursor st1 - fDtorCursor st1 < 2147483648"
  proof (cases "\<exists>sz al. rq = Object sz al")
    case True
    with k1(5) show ?thesis by simp
  next
    case False
    with Cons.prems(4) have "pods_small (rq # rs) blocks (st, m)" by auto
    with mk show ?thesis by simp
  qed
  have hyp1: "pods_small rs bl1 (st1, m1) \<or> (\<forall>r\<in>set rs. \<exists>sz al. r = Object sz al)"
    using Cons.prems(4) mk by auto
  from Cons.IH [OF rest k1(2) pend1 hyp1 oks] obtain nbs2 P2 hs2 where
    k2: "bl1 = nbs2 @ blocks'"
      "arena_inv st' m' (map Destructed (rev (objects_of rs as')) @
          (map Destructed (objects_of [rq] [a]) @ evs @ map Deleted nbs1) @ map Deleted nbs2) P2"
      "P1 \<subseteq> P2" "preserves P1 (mem m1) (mem m')"
      "heap m' = hs2 @ heap m1" "map fst hs2 = rev nbs2"
      "extern m' = extern m1" "events m' = events m1" "length as' = length rs"
      "set nbs2 \<inter> P1 = {}"
    by blast
  have ev: "map Destructed (rev (objects_of rs as')) @
          (map Destructed (objects_of [rq] [a]) @ evs @ map Deleted nbs1) @ map Deleted nbs2
      = map Destructed (rev (objects_of (rq # rs) as)) @ evs @ map Deleted (nbs1 @ nbs2)"
    unfolding as by (cases rq) auto
  have pp: "preserves P (mem m) (mem m')"
    using k1(4) preserves_mono [OF k2(4) k1(3)] by (rule preserves_trans)
  have dj: "set (nbs1 @ nbs2) \<inter> P = {}" using k1(3,10) k2(10) by auto
  show ?case
    using k1(1,3,6,7,8,9) k2(1,3,5,6,7,8,9) k2(2) [unfolded ev] pp as dj
    by (intro exI [of _ "nbs1 @ nbs2"] exI [of _ P2] exI [of _ "hs2 @ hs1"]) auto
qed

text \<open>The arena right after its construction.\<close>

lemma SkArenaAlloc_inv:
  assumes r: "SkArenaAlloc block sz fha m = Inr (st, m')"
    and ext: "footer_size \<le> sz \<and> block \<noteq> 0 \<longrightarrow> 0 < block \<and> (block, int sz) \<in> set (extern m)"
  shows "arena_inv st m'
           (if footer_size \<le> sz \<and> block \<noteq> 0 then [EndOfChain (block + 9)] else [])
           (if footer_size \<le> sz \<and> block \<noteq> 0 then {block ..< block + 9} else {})
     \<and> fCursor st = fDtorCursor st
     \<and> heap m' = heap m \<and> extern m' = extern m \<and> events m' = events m
     \<and> (footer_size \<le> sz \<and> block \<noteq> 0 \<longrightarrow>
          fCursor st = block + 9 \<and> fEnd st = block + int sz
          \<and> mem m' block = Some (Action FnEndChain) \<and> mem m' (block + 8) = Some (Pad 0))
     \<and> (\<not> (footer_size \<le> sz \<and> block \<noteq> 0) \<longrightarrow> fCursor st = 0 \<and> m' = m)"
proof -
  from r obtain size32 fha32 where s32: "ToU32 (int sz) = Inr size32"
    and f32: "ToU32 (int fha) = Inr fha32"
    by (auto simp: SkArenaAlloc_def split: sum.splits)
  have us: "uint size32 = int sz" using ToU32_InrD [OF s32] by blast
  show ?thesis
  proof (cases "footer_size \<le> sz \<and> block \<noteq> 0")
    case True
    with ext have b0: "0 < block" and reg: "(block, int sz) \<in> set (extern m)" by auto
    from True have sz9: "9 \<le> int sz" by (simp add: footer_size_def ptr_size_def)
    let ?m1 = "store block (Action FnEndChain) (mem m)"
    let ?m2 = "store (block + 8) (Pad 0) ?m1"
    from r True s32 f32 have st: "fDtorCursor st = block + 9" "fCursor st = block + 9"
      "fEnd st = block + int sz"
      and m': "m' = m\<lparr>mem := ?m2\<rparr>"
      by (auto simp: SkArenaAlloc_def installFooter_def installRaw_def Let_def us add.commute
          split: if_splits)
    have c1: "?m2 (block + 9 - 9) = Some (Action FnEndChain)"
      by (simp add: store_def overlaps_def)
    have c2: "?m2 (block + 9 - 1) = Some (Pad 0)"
      by (simp add: store_def overlaps_def)
    have b9: "block + 9 \<noteq> 0" using b0 by simp
    have w: "walk ?m2 (block + 9) [EndOfChain (block + 9)] {block + 9 - 9 ..< block + 9}"
      using b9 c1 c2 by (rule walk_end)
    have cv: "{block ..< block + int sz} \<subseteq> covered (heap m @ extern m)"
      using reg by (auto simp: covered_def)
    have s1: "{block ..< block + 9} \<subseteq> {block ..< block + int sz}"
      by (rule ivl_sub) (use sz9 in linarith)+
    have s2: "{block + 9 ..< block + int sz} \<subseteq> {block ..< block + int sz}"
      by (rule ivl_sub) (use sz9 in linarith)+
    have inv: "arena_inv st m' [EndOfChain (block + 9)] {block ..< block + 9}"
      unfolding arena_inv_def
    proof (intro conjI)
      show "\<exists>S\<subseteq>{block..<block + 9}. walk (mem m') (fDtorCursor st) [EndOfChain (block + 9)] S"
        using w unfolding m' st by (intro exI [of _ "{block ..< block + 9}"]) simp
      show "{block..<block + 9} \<inter> {fDtorCursor st..<fEnd st} = {}" unfolding st by auto
      show "{block..<block + 9} \<subseteq> covered (heap m' @ extern m')"
        using s1 cv unfolding m' by auto
      show "if fCursor st = 0 then fDtorCursor st = 0
            else 0 < fDtorCursor st \<and> fDtorCursor st \<le> fCursor st \<and> fCursor st \<le> fEnd st
                 \<and> {fDtorCursor st..<fEnd st} \<subseteq> covered (heap m' @ extern m')"
        using b0 sz9 s2 cv unfolding st m' by auto
      show "distinct (deleted [EndOfChain (block + 9)])" by simp
      show "set (deleted [EndOfChain (block + 9)]) \<subseteq> fst ` set (heap m')" by simp
    qed
    have cells: "mem m' block = Some (Action FnEndChain)" "mem m' (block + 8) = Some (Pad 0)"
      unfolding m' by (simp_all add: store_def overlaps_def)
    have cond: "(footer_size \<le> sz \<and> block \<noteq> 0) = True" using True by simp
    show ?thesis unfolding cond using inv st cells by (simp add: m')
  next
    case False
    from r False s32 f32 have st: "fDtorCursor st = 0" "fCursor st = 0" and m': "m' = m"
      by (auto simp: SkArenaAlloc_def installFooter_def installRaw_def Let_def
          split: if_splits)
    have i: "arena_inv st m' [] {}"
      unfolding arena_inv_def st by (auto intro: walk_null)
    have cond: "(footer_size \<le> sz \<and> block \<noteq> 0) = False" using False by simp
    show ?thesis unfolding cond using i st m' by simp
  qed
qed

section \<open>From construction to destruction\<close>

lemma deleted_map_Destructed: "deleted (map Destructed xs) = []"
  by (induction xs) auto

lemma deleted_map_Deleted: "deleted (map Deleted xs) = xs"
  by (induction xs) auto

lemma destructed_map_Destructed: "destructed (map Destructed xs) = xs"
  by (induction xs) auto

lemma destructed_map_Deleted: "destructed (map Deleted xs) = []"
  by (induction xs) auto

text \<open>
  An arena with nothing pending, through a run of requests to its destruction: the whole
  trace of the teardown, and what the run leaves untouched.
\<close>

lemma lifecycle_from:
  assumes inv0: "arena_inv st0 m1 s P0"
    and cd: "fCursor st0 = fDtorCursor st0"
    and ds: "deleted s = []"
    and r: "run reqs blocks (st0, m1) = Inr (as, blocks', st, m)"
    and small: "pods_small reqs blocks (st0, m1) \<or> (\<forall>r\<in>set reqs. \<exists>sz al. r = Object sz al)"
    and ok: "\<forall>r\<in>set reqs. request_ok r"
  shows "\<exists>nbs hs f0. blocks = nbs @ blocks' \<and> heap m = hs @ heap m1 \<and> map fst hs = rev nbs
     \<and> distinct nbs \<and> events m = events m1 \<and> extern m = extern m1 \<and> length as = length reqs
     \<and> set nbs \<inter> P0 = {} \<and> preserves P0 (mem m1) (mem m)
     \<and> (\<forall>f\<ge>f0. SkArenaAlloc_dtor f st m =
           Inr (m\<lparr>events := events m1 @ map Destructed (rev (objects_of reqs as)) @ s
                      @ map Deleted nbs,
                   heap := filter (\<lambda>r. fst r \<notin> set nbs) (heap m)\<rparr>))"
proof -
  have pend0: "fCursor st0 - fDtorCursor st0 < 2147483648" using cd by simp
  from run_inv [OF r inv0 pend0 small ok] obtain nbs P' hs where
    k: "blocks = nbs @ blocks'"
      "arena_inv st m (map Destructed (rev (objects_of reqs as)) @ s @ map Deleted nbs) P'"
      "P0 \<subseteq> P'" "preserves P0 (mem m1) (mem m)"
      "heap m = hs @ heap m1" "map fst hs = rev nbs" "set nbs \<inter> P0 = {}"
      "extern m = extern m1" "events m = events m1" "length as = length reqs"
    by blast
  let ?evs = "map Destructed (rev (objects_of reqs as)) @ s @ map Deleted nbs"
  have del: "deleted ?evs = nbs"
    by (simp add: deleted_append deleted_map_Destructed deleted_map_Deleted ds)
  from k(2) obtain S where w: "walk (mem m) (fDtorCursor st) ?evs S"
    and dist: "distinct (deleted ?evs)" and dsub: "set (deleted ?evs) \<subseteq> fst ` set (heap m)"
    unfolding arena_inv_def by blast
  from RunDtorsOnBlock_walk [OF w refl dist dsub] obtain f0 where
    f0: "\<forall>f\<ge>f0. RunDtorsOnBlock f (fDtorCursor st) m =
        Inr (m\<lparr>events := events m @ ?evs,
                heap := filter (\<lambda>r. fst r \<notin> set (deleted ?evs)) (heap m)\<rparr>)"
    by blast
  show ?thesis
    using k(1,4,5,6,7,8,9,10) dist f0 unfolding del SkArenaAlloc_dtor_def
    by (intro exI [of _ nbs] exI [of _ hs] exI [of _ f0]) simp
qed

text \<open>The same from the construction of the arena.\<close>

lemma lifecycle:
  assumes c: "SkArenaAlloc block sz fha m0 = Inr (st0, m1)"
    and ext: "footer_size \<le> sz \<and> block \<noteq> 0 \<longrightarrow> 0 < block \<and> (block, int sz) \<in> set (extern m0)"
    and r: "run reqs blocks (st0, m1) = Inr (as, blocks', st, m)"
    and small: "pods_small reqs blocks (st0, m1) \<or> (\<forall>r\<in>set reqs. \<exists>sz al. r = Object sz al)"
    and ok: "\<forall>r\<in>set reqs. request_ok r"
  shows "\<exists>nbs hs f0. blocks = nbs @ blocks' \<and> heap m = hs @ heap m0 \<and> map fst hs = rev nbs
     \<and> distinct nbs \<and> events m = events m0 \<and> extern m = extern m0 \<and> length as = length reqs
     \<and> (footer_size \<le> sz \<and> block \<noteq> 0 \<longrightarrow>
           set nbs \<inter> {block ..< block + 9} = {}
           \<and> mem m block = Some (Action FnEndChain) \<and> mem m (block + 8) = Some (Pad 0))
     \<and> (\<forall>f\<ge>f0. SkArenaAlloc_dtor f st m =
           Inr (m\<lparr>events := events m0 @ map Destructed (rev (objects_of reqs as))
                      @ (if footer_size \<le> sz \<and> block \<noteq> 0 then [EndOfChain (block + 9)] else [])
                      @ map Deleted nbs,
                   heap := filter (\<lambda>r. fst r \<notin> set nbs) (heap m)\<rparr>))"
proof -
  let ?s = "if footer_size \<le> sz \<and> block \<noteq> 0 then [EndOfChain (block + 9)] else []"
  let ?P = "if footer_size \<le> sz \<and> block \<noteq> 0 then {block ..< block + 9} else {}"
  note c0 = SkArenaAlloc_inv [OF c ext]
  from c0 have inv0: "arena_inv st0 m1 ?s ?P" and cd: "fCursor st0 = fDtorCursor st0"
    and h0: "heap m1 = heap m0" "extern m1 = extern m0" "events m1 = events m0"
    by blast+
  have ds: "deleted ?s = []" by simp
  from lifecycle_from [OF inv0 cd ds r small ok] obtain nbs hs f0 where
    k: "blocks = nbs @ blocks'" "heap m = hs @ heap m1" "map fst hs = rev nbs"
      "distinct nbs" "events m = events m1" "extern m = extern m1" "length as = length reqs"
      "set nbs \<inter> ?P = {}" "preserves ?P (mem m1) (mem m)"
      "\<forall>f\<ge>f0. SkArenaAlloc_dtor f st m =
           Inr (m\<lparr>events := events m1 @ map Destructed (rev (objects_of reqs as)) @ ?s
                      @ map Deleted nbs,
                   heap := filter (\<lambda>r. fst r \<notin> set nbs) (heap m)\<rparr>)"
    by blast
  have sent: "set nbs \<inter> {block ..< block + 9} = {}
           \<and> mem m block = Some (Action FnEndChain) \<and> mem m (block + 8) = Some (Pad 0)"
    if t: "footer_size \<le> sz \<and> block \<noteq> 0"
  proof -
    from c0 t have cells: "mem m1 block = Some (Action FnEndChain)"
      "mem m1 (block + 8) = Some (Pad 0)" by blast+
    from k(9) t have p: "preserves {block ..< block + 9} (mem m1) (mem m)" by simp
    have "mem m block = Some (Action FnEndChain)"
      by (rule preservesD [OF p cells(1)]) simp
    moreover have "mem m (block + 8) = Some (Pad 0)"
      by (rule preservesD [OF p cells(2)]) simp
    moreover have "set nbs \<inter> {block ..< block + 9} = {}" using k(8) t by simp
    ultimately show ?thesis by blast
  qed
  show ?thesis
    using k(1,2,3,4,5,6,7,10) h0 sent
    by (intro exI [of _ nbs] exI [of _ hs] exI [of _ f0]) simp
qed


lemmas run_eval = arena_eval SkArenaAlloc_def ToU32_def to_uint32_t_def first_allocated_block_def
  makeObject_def makeBytes_def allocObjectWithFooter.simps allocObject.simps
  store_def clobber_def overlaps_def


text \<open>
  Every pass of \<open>allocObjectWithFooter\<close> that grows takes one block from the system, and
  an arena whose cursor is null has to grow. An arena with null cursors and no chain
  satisfies the invariant.
\<close>

lemma allocObjectWithFooter_length:
  "allocObjectWithFooter sif al blocks sm = Inr (a, blocks', sm') \<Longrightarrow>
     length blocks' \<le> length blocks
     \<and> (fCursor (fst sm) = 0 \<longrightarrow> length blocks' < length blocks)"
proof (induction blocks arbitrary: sm)
  case Nil
  obtain st m where sm: "sm = (st, m)" by (cases sm)
  from Nil show ?case unfolding sm allocObjectWithFooter_unfold
    by (auto split: if_splits sum.splits)
next
  case (Cons nb bl)
  obtain st m where sm: "sm = (st, m)" by (cases sm)
  from Cons.prems [unfolded sm allocObjectWithFooter_unfold]
  show ?case unfolding sm
    by (auto split: if_splits sum.splits dest!: Cons.IH)
qed

lemma arena_inv_null:
  assumes "fCursor st = 0" "fDtorCursor st = 0" "fEnd st = 0"
    and "P \<subseteq> covered (heap m @ extern m)"
  shows "arena_inv st m [] P"
  unfolding arena_inv_def using assms by (auto intro: walk_null)


section \<open>Sequences of growths\<close>

text \<open>
  Rounding is monotone, the size of a block is the rounded maximum of the request and the
  counter, and the counter \<open>fNextHeapAlloc\<close> does not decrease in a call that returns.
\<close>

lemma round_ge: "b \<le> (b + (k - 1)) div k * k" if "0 < k" for b k :: int
proof -
  have "(b + (k - 1)) mod k < k" using that by simp
  moreover have "(b + (k - 1)) div k * k = (b + (k - 1)) - (b + (k - 1)) mod k"
    by (simp add: minus_mod_eq_div_mult)
  ultimately show ?thesis by linarith
qed

lemma rounded_mono: "a \<le> b \<Longrightarrow> rounded a \<le> rounded b"
proof -
  assume ab: "a \<le> b"
  consider "b \<le> 32768" | "32768 < a" | "a \<le> 32768" "32768 < b" by linarith
  then show ?thesis
  proof cases
    case 1
    with ab have k: "\<not> 32768 < a" "\<not> 32768 < b" by linarith+
    have "(a + 15) div 16 \<le> (b + 15) div 16" using ab by (intro zdiv_mono1) simp_all
    then show ?thesis unfolding rounded_def Let_def using k by simp
  next
    case 2
    with ab have k: "32768 < a" "32768 < b" by linarith+
    have "(a + 4095) div 4096 \<le> (b + 4095) div 4096" using ab by (intro zdiv_mono1) simp_all
    then show ?thesis unfolding rounded_def Let_def using k by simp
  next
    case 3
    have "(a + 15) div 16 \<le> (32768 + 15) div 16" using 3(1) by (intro zdiv_mono1) simp_all
    then have "(a + 15) div 16 * 16 \<le> 32768" by simp
    moreover have "b \<le> (b + (4096 - 1)) div 4096 * 4096" by (rule round_ge) simp
    ultimately show ?thesis unfolding rounded_def Let_def using 3 by simp
  qed
qed

lemma ensureSpace_size_rounded:
  assumes "ensureSpace_size sz al st = Inr (n, st')"
  shows "uint n = rounded (max (exact_size (sz, al)) (uint (fNextHeapAlloc st)))"
  using ensureSpace_size_InrD(7) [OF assms]
  by (simp add: rounded_def exact_size_def uint_overhead Let_def)

lemma counter_step:
  assumes s: "ensureSpace_size sz al st = Inr (n, st')"
    and J: "fNextHeapAlloc st \<le> fYetNextHeapAlloc st \<or> fNextHeapAlloc st = maxSize"
  shows "uint (fNextHeapAlloc st) \<le> uint (fNextHeapAlloc st')
     \<and> (fNextHeapAlloc st' \<le> fYetNextHeapAlloc st' \<or> fNextHeapAlloc st' = maxSize)"
proof -
  note d = ensureSpace_size_InrD [OF s]
  have nb: "uint n \<le> 4294967295" using uint_lt2p [of n] by simp
  have nmax: "fNextHeapAlloc st \<noteq> maxSize"
  proof
    assume e: "fNextHeapAlloc st = maxSize"
    then have big: "32768 < max (uint sz + 26 + (uint al - 1)) (uint (fNextHeapAlloc st))"
      by (simp add: uint_maxSize)
    from d(3) e have "4294967295 \<le> uint n" by (simp add: uint_maxSize)
    with nb have "uint n = 4294967295" by linarith
    with d(4) [OF big] show False by simp
  qed
  with J have le: "fNextHeapAlloc st \<le> fYetNextHeapAlloc st" by simp
  then have le': "uint (fNextHeapAlloc st) \<le> uint (fYetNextHeapAlloc st)"
    by (simp add: word_le_def)
  show ?thesis
  proof (cases "fYetNextHeapAlloc st \<le> maxSize - fNextHeapAlloc st")
    case True
    then have "uint (fYetNextHeapAlloc st) + uint (fNextHeapAlloc st) \<le> 4294967295"
      by (simp only: u32_le_max_minus uint_add_le_iff)
    then have "uint (fNextHeapAlloc st) + uint (fYetNextHeapAlloc st) \<le> 4294967295" by linarith
    from uint_add_no_wrap [OF this]
    have "uint (fYetNextHeapAlloc st) \<le> uint (fNextHeapAlloc st + fYetNextHeapAlloc st)"
      using uint_ge_0 [of "fNextHeapAlloc st"] by linarith
    then have "fYetNextHeapAlloc st \<le> fNextHeapAlloc st + fYetNextHeapAlloc st"
      by (simp add: word_le_def)
    with True le' d(6) show ?thesis by simp
  next
    case False
    have "uint (fNextHeapAlloc st) \<le> uint maxSize"
      using uint_lt2p [of "fNextHeapAlloc st"] by (simp add: uint_maxSize)
    with False d(6) show ?thesis by simp
  qed
qed


lemma grow_inv:
  assumes "grow rs blocks (st, m) = Inr (st', m')"
    and "fNextHeapAlloc st \<le> fYetNextHeapAlloc st \<or> fNextHeapAlloc st = maxSize"
  shows "\<exists>ns. map snd (heap m') = rev ns @ map snd (heap m) \<and> length ns = length rs
     \<and> (\<forall>i<length rs. exact_size (rs ! i) \<le> ns ! i \<and> ns ! i \<le> 4294967295)
     \<and> (\<forall>lo. (\<forall>r\<in>set rs. lo \<le> exact_size r) \<longrightarrow>
            (\<forall>n\<in>set ns. rounded (max lo (uint (fNextHeapAlloc st))) \<le> n))
     \<and> uint (fNextHeapAlloc st) \<le> uint (fNextHeapAlloc st')
     \<and> (fNextHeapAlloc st' \<le> fYetNextHeapAlloc st' \<or> fNextHeapAlloc st' = maxSize)
     \<and> (sorted (map exact_size rs) \<longrightarrow> sorted ns)"
  using assms
proof (induction rs arbitrary: blocks st m)
  case Nil
  then show ?case by simp
next
  case (Cons r rs)
  obtain sz al where r: "r = (sz, al)" by (cases r)
  from Cons.prems(1) obtain nb bl where bl: "blocks = nb # bl"
    unfolding r by (cases blocks) simp_all
  from Cons.prems(1) obtain st1 m1 where
    e: "ensureSpace sz al nb (st, m) = Inr (st1, m1)"
    and g: "grow rs bl (st1, m1) = Inr (st', m')"
    unfolding r bl by (auto split: sum.splits)
  from ensureSpace_InrD [OF e] obtain n s1 where
    es: "ensureSpace_size sz al st = Inr (n, s1)"
    and st1: "st1 = s1\<lparr>fCursor := nb + 17, fDtorCursor := nb + 17, fEnd := nb + uint n\<rparr>"
    and hp: "heap m1 = (nb, uint n) # heap m"
    by auto
  from counter_step [OF es Cons.prems(2)] st1
  have c: "uint (fNextHeapAlloc st) \<le> uint (fNextHeapAlloc st1)"
    and J1: "fNextHeapAlloc st1 \<le> fYetNextHeapAlloc st1 \<or> fNextHeapAlloc st1 = maxSize"
    by simp_all
  note d = ensureSpace_size_InrD [OF es]
  have n: "uint n = rounded (max (exact_size r) (uint (fNextHeapAlloc st)))"
    unfolding r by (rule ensureSpace_size_rounded [OF es])
  have nlo: "exact_size r \<le> uint n"
    using d(3) unfolding r exact_size_def by (simp add: uint_overhead)
  have nhi: "uint n \<le> 4294967295" using uint_lt2p [of n] by simp
  from Cons.IH [OF g J1] obtain ns where
    h: "map snd (heap m') = rev ns @ map snd (heap m1)" and l: "length ns = length rs"
    and b: "\<forall>i<length rs. exact_size (rs ! i) \<le> ns ! i \<and> ns ! i \<le> 4294967295"
    and lo: "\<forall>lo. (\<forall>r\<in>set rs. lo \<le> exact_size r) \<longrightarrow>
            (\<forall>n\<in>set ns. rounded (max lo (uint (fNextHeapAlloc st1))) \<le> n)"
    and c': "uint (fNextHeapAlloc st1) \<le> uint (fNextHeapAlloc st')"
    and J': "fNextHeapAlloc st' \<le> fYetNextHeapAlloc st' \<or> fNextHeapAlloc st' = maxSize"
    and so: "sorted (map exact_size rs) \<longrightarrow> sorted ns"
    by (elim exE conjE)
  let ?ns = "uint n # ns"
  have 1: "map snd (heap m') = rev ?ns @ map snd (heap m)" using h hp by simp
  have 2: "length ?ns = length (r # rs)" using l by simp
  have 3: "\<forall>i<length (r # rs). exact_size ((r # rs) ! i) \<le> ?ns ! i \<and> ?ns ! i \<le> 4294967295"
  proof (intro allI impI)
    fix i assume "i < length (r # rs)"
    then show "exact_size ((r # rs) ! i) \<le> ?ns ! i \<and> ?ns ! i \<le> 4294967295"
      using nlo nhi b by (cases i) simp_all
  qed
  have 4: "\<forall>lo. (\<forall>x\<in>set (r # rs). lo \<le> exact_size x) \<longrightarrow>
            (\<forall>k\<in>set ?ns. rounded (max lo (uint (fNextHeapAlloc st))) \<le> k)"
  proof (intro allI impI ballI)
    fix lo k assume a: "\<forall>x\<in>set (r # rs). lo \<le> exact_size x" and k: "k \<in> set ?ns"
    from a have lr: "lo \<le> exact_size r" and rest: "\<forall>x\<in>set rs. lo \<le> exact_size x" by simp_all
    from k consider "k = uint n" | "k \<in> set ns" by auto
    then show "rounded (max lo (uint (fNextHeapAlloc st))) \<le> k"
    proof cases
      case 1
      have "rounded (max lo (uint (fNextHeapAlloc st)))
              \<le> rounded (max (exact_size r) (uint (fNextHeapAlloc st)))"
        by (rule rounded_mono) (use lr in linarith)
      then show ?thesis unfolding 1 n .
    next
      case 2
      with lo rest have "rounded (max lo (uint (fNextHeapAlloc st1))) \<le> k" by blast
      moreover have "rounded (max lo (uint (fNextHeapAlloc st)))
              \<le> rounded (max lo (uint (fNextHeapAlloc st1)))"
        by (rule rounded_mono) (use c in linarith)
      ultimately show ?thesis by linarith
    qed
  qed
  have 5: "uint (fNextHeapAlloc st) \<le> uint (fNextHeapAlloc st')" using c c' by linarith
  have 6: "sorted (map exact_size (r # rs)) \<longrightarrow> sorted ?ns"
  proof
    assume s: "sorted (map exact_size (r # rs))"
    then have s1: "sorted (map exact_size rs)" and s2: "\<forall>x\<in>set rs. exact_size r \<le> exact_size x"
      by simp_all
    have "\<forall>k\<in>set ns. uint n \<le> k"
    proof
      fix k assume k: "k \<in> set ns"
      with lo s2 have "rounded (max (exact_size r) (uint (fNextHeapAlloc st1))) \<le> k" by blast
      moreover have "rounded (max (exact_size r) (uint (fNextHeapAlloc st)))
              \<le> rounded (max (exact_size r) (uint (fNextHeapAlloc st1)))"
        by (rule rounded_mono) (use c in linarith)
      ultimately show "uint n \<le> k" unfolding n by linarith
    qed
    with so s1 show "sorted ?ns" by simp
  qed
  show ?case
    by (rule exI [of _ ?ns]) (intro conjI 1 2 3 4 5 6 J')
qed


lemma SkArenaAlloc_counters:
  "SkArenaAlloc block sz fha m0 = Inr (st, m) \<Longrightarrow> fNextHeapAlloc st = fYetNextHeapAlloc st"
  by (auto simp: SkArenaAlloc_def Let_def installFooter_def installRaw_def
      split: sum.splits if_splits)


section \<open>Reset\<close>













section \<open>What an allocation writes\<close>

text \<open>
  An allocation writes into the unused part of the active block and into the blocks it
  takes from the system, nowhere else: memory outside them keeps its cells. This needs no
  bound on the trivially destructible data.
\<close>

lemma ensureSpace_frame:
  assumes fr: "frame Q st m"
    and r: "ensureSpace sz al nb (st, m) = Inr (st', m')"
  shows "frame Q st' m' \<and> preserves Q (mem m) (mem m')"
proof -
  from ensureSpace_InrD [OF r] obtain n st1 where
    s: "ensureSpace_size sz al st = Inr (n, st1)" and nb: "0 < nb"
    and dh: "disjoint_from nb (uint n) (heap m)" and de: "disjoint_from nb (uint n) (extern m)"
    and st': "st' = st1\<lparr>fCursor := nb + 17, fDtorCursor := nb + 17, fEnd := nb + uint n\<rparr>"
    and m': "m' = m\<lparr>heap := (nb, uint n) # heap m,
                    mem := store (nb + 16) (Pad 0) (store (nb + 8) (Action FnNextBlock)
                             (store nb (Ptr (fDtorCursor st)) (mem m)))\<rparr>"
    by auto
  note d = ensureSpace_size_InrD [OF s]
  define N where "N = uint n"
  have N: "uint sz + 26 + (uint al - 1) \<le> N" using d(3) unfolding N_def by simp
  have al: "0 \<le> uint al - 1"
  proof -
    have "uint al \<noteq> 0" using d(1) by (simp add: uint_0_iff)
    then show ?thesis using uint_ge_0 [of al] by linarith
  qed
  have N26: "26 \<le> N" using N al uint_ge_0 [of sz] by linarith
  from fr have Qc: "Q \<subseteq> covered (heap m @ extern m)" unfolding frame_def by simp
  have fresh: "{nb ..< nb + N} \<inter> covered (heap m @ extern m) = {}"
    using disjoint_from_covered [OF dh] disjoint_from_covered [OF de]
    unfolding covered_append N_def by auto
  then have freshQ: "Q \<inter> {nb ..< nb + N} = {}" using Qc by blast
  have sub17: "{nb ..< nb + 17} \<subseteq> {nb ..< nb + N}" using N26 by simp
  have freshQ17: "Q \<inter> {nb ..< nb + 17} = {}" using freshQ sub17 by blast
  let ?m1 = "store nb (Ptr (fDtorCursor st)) (mem m)"
  let ?m2 = "store (nb + 8) (Action FnNextBlock) ?m1"
  let ?m3 = "store (nb + 16) (Pad 0) ?m2"
  have p1: "preserves Q (mem m) ?m1" by (rule preserves_store_in [OF freshQ17]) simp
  have p2: "preserves Q ?m1 ?m2" by (rule preserves_store_in [OF freshQ17]) simp
  have p3: "preserves Q ?m2 ?m3" by (rule preserves_store_in [OF freshQ17]) simp
  have pres: "preserves Q (mem m) ?m3" using p1 p2 p3 by (blast intro: preserves_trans)
  have memm': "mem m' = ?m3" using m' by simp
  have "{nb + 17 ..< nb + N} \<subseteq> {nb ..< nb + N}" by simp
  then have free: "Q \<inter> {nb + 17 ..< nb + N} = {}" using freshQ by blast
  have Qc': "Q \<subseteq> covered (heap m' @ extern m')"
    using Qc unfolding m' by (auto simp: covered_append covered_Cons)
  have "frame Q st' m'"
    unfolding frame_def using Qc' free nb unfolding st' N_def by simp
  then show ?thesis using pres unfolding memm' by simp
qed

lemma alloc_nogrow_frame:
  assumes r0: "allocObjectWithFooter sif al blocks (st, m) = Inr (a, blocks', st', m')"
    and fr: "frame Q st m"
    and fit: "uint sif + 13 \<le> 4294967295"
    and nogrow: "\<not> (fCursor st = 0 \<or>
         fEnd st - ((fCursor st + (if fCursor st \<noteq> fDtorCursor st then 13 else 0) + uint (al - 1))
                     AND NOT (uint (al - 1)))
           < uint (sif + (if fCursor st \<noteq> fDtorCursor st then 13 else 0)))"
  shows "frame Q st' m' \<and> preserves Q (mem m) (mem m')
     \<and> fCursor st' \<noteq> 0 \<and> fCursor st' \<le> a \<and> a + uint sif \<le> fEnd st'"
proof -
  note r = r0 [unfolded allocObjectWithFooter_unfold]
  let ?c = "fCursor st" and ?dc = "fDtorCursor st"
  let ?mask = "uint (al - 1)"
  have mask0: "0 \<le> ?mask" by simp
  from nogrow have c0: "?c \<noteq> 0" by simp
  from fr c0 have cpos: "0 < ?c" and Qfree: "Q \<inter> {?c ..< fEnd st} = {}"
    and Qc: "Q \<subseteq> covered (heap m @ extern m)"
    unfolding frame_def by auto
  show ?thesis
  proof (cases "?c = ?dc")
    case True
    let ?o = "(?c + ?mask) AND NOT ?mask"
    from r nogrow True have res: "a = ?o" "st' = st" "m' = m"
      by (auto split: if_splits)
    from nogrow True have fits: "uint sif \<le> fEnd st - ?o" by simp
    have b: "?c \<le> ?o" using align_bounds(1) [of ?c ?mask] cpos mask0 by simp
    show ?thesis
      unfolding res using fr c0 b fits by (simp add: preserves_refl)
  next
    case False
    let ?o = "(?c + 13 + ?mask) AND NOT ?mask"
    have ts: "uint (sif + 13) = uint sif + 13"
      using fit by (rule uint_plus_13)
    from nogrow False have fits: "uint sif + 13 \<le> fEnd st - ?o" by (simp add: ts)
    from r nogrow False obtain d where d: "ToU32 (?c - ?dc) = Inr d"
      and f: "installFooter FnSkipPod 0 (installRaw (U32 d) (st, m)) = Inr (st', m')"
      and res: "a = ?o"
      by (auto split: if_splits sum.splits)
    have b: "?c + 13 \<le> ?o"
      using align_bounds(1) [of "?c + 13" ?mask] cpos mask0 by simp
    have room: "?c + 13 \<le> fEnd st" using b fits uint_ge_0 [of sif] by linarith
    let ?m1 = "store ?c (U32 d) (mem m)"
    let ?m2 = "store (?c + 4) (Action FnSkipPod) ?m1"
    let ?m3 = "store (?c + 12) (Pad 0) ?m2"
    from f have st': "st' = st\<lparr>fCursor := ?c + 13, fDtorCursor := ?c + 13\<rparr>"
      and m': "m' = m\<lparr>mem := ?m3\<rparr>"
      by (auto simp: installFooter_def installRaw_def add.commute split: if_splits)
    have sub: "{?c ..< ?c + 13} \<subseteq> {?c ..< fEnd st}" using room by simp
    have Q13: "Q \<inter> {?c ..< ?c + 13} = {}" using Qfree sub by blast
    have p1: "preserves Q (mem m) ?m1" by (rule preserves_store_in [OF Q13]) simp
    have p2: "preserves Q ?m1 ?m2" by (rule preserves_store_in [OF Q13]) simp
    have p3: "preserves Q ?m2 ?m3" by (rule preserves_store_in [OF Q13]) simp
    have pres: "preserves Q (mem m) ?m3" using p1 p2 p3 by (blast intro: preserves_trans)
    have "{?c + 13 ..< fEnd st} \<subseteq> {?c ..< fEnd st}" by simp
    then have free: "Q \<inter> {?c + 13 ..< fEnd st} = {}" using Qfree by blast
    have pos: "0 < ?c + 13" using cpos by linarith
    have fr': "frame Q st' m'"
      unfolding frame_def using Qc free pos unfolding st' m' by simp
    have le: "?o + uint sif \<le> fEnd st" using fits by linarith
    show ?thesis
      using fr' pres pos b le unfolding res by (simp add: st' m')
  qed
qed

lemma allocObjectWithFooter_frame:
  assumes "allocObjectWithFooter sif al blocks (st, m) = Inr (a, blocks', st', m')"
    and "frame Q st m"
    and "uint sif + 13 \<le> 4294967295"
  shows "frame Q st' m' \<and> preserves Q (mem m) (mem m')
     \<and> fCursor st' \<noteq> 0 \<and> fCursor st' \<le> a \<and> a + uint sif \<le> fEnd st'"
  using assms
proof (induction blocks arbitrary: st m)
  case (Nil st m)
  note r = Nil.prems(1) [unfolded allocObjectWithFooter_unfold]
  from r have nogrow: "\<not> (fCursor st = 0 \<or>
         fEnd st - ((fCursor st + (if fCursor st \<noteq> fDtorCursor st then 13 else 0) + uint (al - 1))
                     AND NOT (uint (al - 1)))
           < uint (sif + (if fCursor st \<noteq> fDtorCursor st then 13 else 0)))"
    by (auto split: if_splits)
  from Nil.prems show ?case
    by (rule alloc_nogrow_frame [OF _ _ _ nogrow])
next
  case (Cons nb bl st m)
  note r = Cons.prems(1) [unfolded allocObjectWithFooter_unfold]
    and fr = Cons.prems(2) and fit = Cons.prems(3)
  show ?case
  proof (cases "fCursor st = 0 \<or>
         fEnd st - ((fCursor st + (if fCursor st \<noteq> fDtorCursor st then 13 else 0) + uint (al - 1))
                     AND NOT (uint (al - 1)))
           < uint (sif + (if fCursor st \<noteq> fDtorCursor st then 13 else 0))")
    case True
    from r True obtain st1 m1 where
      e: "ensureSpace (sif + (if fCursor st \<noteq> fDtorCursor st then 13 else 0)) al nb (st, m)
            = Inr (st1, m1)"
      and rec: "allocObjectWithFooter sif al bl (st1, m1) = Inr (a, blocks', st', m')"
      by (auto split: if_splits sum.splits)
    from ensureSpace_frame [OF fr e] have fr1: "frame Q st1 m1"
      and p1: "preserves Q (mem m) (mem m1)" by simp_all
    from Cons.IH [OF rec fr1 fit] p1 show ?thesis
      by (auto intro: preserves_trans)
  next
    case False
    from Cons.prems show ?thesis
      by (rule alloc_nogrow_frame [OF _ _ _ False])
  qed
qed

lemma allocObject_frame:
  assumes "allocObject sz al blocks (st, m) = Inr (a, blocks', st', m')"
    and "frame Q st m"
  shows "frame Q st' m' \<and> preserves Q (mem m) (mem m')
     \<and> fCursor st' \<noteq> 0 \<and> fCursor st' \<le> a \<and> a + uint sz \<le> fEnd st'"
  using assms
proof (induction blocks arbitrary: st m)
  case (Nil st m)
  note r = Nil.prems(1) [unfolded allocObject_unfold] and fr = Nil.prems(2)
  let ?c = "fCursor st" and ?mask = "uint (al - 1)"
  let ?o = "(?c + ?mask) AND NOT ?mask"
  from r have nogrow: "\<not> (?c = 0 \<or> fEnd st - ?o < uint sz)"
    by (auto split: if_splits)
  from fr nogrow have cpos: "0 < ?c" unfolding frame_def by simp
  from r nogrow have res: "a = ?o" "st' = st" "m' = m" by (auto split: if_splits)
  have b: "?c \<le> ?o" using align_bounds(1) [of ?c ?mask] cpos by simp
  from nogrow have fits: "?o + uint sz \<le> fEnd st" by simp
  show ?case unfolding res using fr nogrow b fits by (simp add: preserves_refl)
next
  case (Cons nb bl st m)
  note r = Cons.prems(1) [unfolded allocObject_unfold] and fr = Cons.prems(2)
  let ?c = "fCursor st" and ?mask = "uint (al - 1)"
  let ?o = "(?c + ?mask) AND NOT ?mask"
  show ?case
  proof (cases "?c = 0 \<or> fEnd st - ?o < uint sz")
    case True
    from r True obtain st1 m1 where
      e: "ensureSpace sz al nb (st, m) = Inr (st1, m1)"
      and rec: "allocObject sz al bl (st1, m1) = Inr (a, blocks', st', m')"
      by (auto split: if_splits sum.splits)
    from ensureSpace_frame [OF fr e] have fr1: "frame Q st1 m1"
      and p1: "preserves Q (mem m) (mem m1)" by simp_all
    from Cons.IH [OF rec fr1] p1 show ?thesis
      by (auto intro: preserves_trans)
  next
    case False
    from fr False have cpos: "0 < ?c" unfolding frame_def by simp
    from r False have res: "a = ?o" "st' = st" "m' = m" by (auto split: if_splits)
    have b: "?c \<le> ?o" using align_bounds(1) [of ?c ?mask] cpos by simp
    from False have fits: "?o + uint sz \<le> fEnd st" by simp
    show ?thesis unfolding res using fr False b fits by (simp add: preserves_refl)
  qed
qed

lemma makeBytes_frame:
  assumes r: "makeBytes sz al blocks (st, m) = Inr (a, blocks', st', m')"
    and fr: "frame Q st m"
  shows "frame Q st' m' \<and> preserves Q (mem m) (mem m')"
proof -
  from r obtain st1 m1 where
    al: "allocObject sz al blocks (st, m) = Inr (a, blocks', st1, m1)"
    and st': "st' = st1\<lparr>fCursor := a + uint sz\<rparr>"
    and m': "m' = m1\<lparr>mem := clobber a (uint sz) (mem m1)\<rparr>"
    by (auto simp: makeBytes_def split: sum.splits)
  from allocObject_frame [OF al fr] have fr1: "frame Q st1 m1"
    and p1: "preserves Q (mem m) (mem m1)"
    and k: "fCursor st1 \<noteq> 0" "fCursor st1 \<le> a" "a + uint sz \<le> fEnd st1"
    by simp_all
  from fr1 k(1) have cpos: "0 < fCursor st1" and Qfree: "Q \<inter> {fCursor st1 ..< fEnd st1} = {}"
    and Qc: "Q \<subseteq> covered (heap m1 @ extern m1)"
    unfolding frame_def by auto
  have sub: "{a ..< a + uint sz} \<subseteq> {fCursor st1 ..< fEnd st1}"
    by (rule ivl_sub) (use k in linarith)+
  have pc: "preserves Q (mem m1) (mem m')"
    unfolding m' using preserves_clobber_in [OF Qfree sub] by simp
  have "{a + uint sz ..< fEnd st1} \<subseteq> {fCursor st1 ..< fEnd st1}"
    by (rule ivl_sub) (use k uint_ge_0 [of sz] in linarith)+
  then have free: "Q \<inter> {a + uint sz ..< fEnd st1} = {}" using Qfree by blast
  have pos: "0 < a + uint sz" using cpos k(2) uint_ge_0 [of sz] by linarith
  have "frame Q st' m'"
    unfolding frame_def using Qc free pos unfolding st' m' by simp
  then show ?thesis using p1 pc by (blast intro: preserves_trans)
qed

lemma makeObject_frame:
  assumes r: "makeObject sz al blocks (st, m) = Inr (a, blocks', st', m')"
    and fr: "frame Q st m"
    and fit: "uint sz + 22 \<le> 4294967295"
  shows "frame Q st' m' \<and> preserves Q (mem m) (mem m')"
proof -
  let ?sif = "sz + word_of_nat footer_size"
  have us: "uint ?sif = uint sz + 9" using fit by (intro uint_plus_9) simp
  from r obtain st1 m1 padding where
    al: "allocObjectWithFooter ?sif al blocks (st, m) = Inr (a, blocks', st1, m1)"
    and pd: "ToU32 (a - fCursor st1) = Inr padding"
    and f: "installFooter (FnReleaser (unat sz)) padding
              (st1\<lparr>fCursor := a + uint sz\<rparr>, m1\<lparr>mem := clobber a (uint sz) (mem m1)\<rparr>)
            = Inr (st', m')"
    by (auto simp: makeObject_def split: sum.splits)
  have fit13: "uint ?sif + 13 \<le> 4294967295" using fit us by simp
  from allocObjectWithFooter_frame [OF al fr fit13] have fr1: "frame Q st1 m1"
    and p1: "preserves Q (mem m) (mem m1)"
    and k: "fCursor st1 \<noteq> 0" "fCursor st1 \<le> a" "a + uint ?sif \<le> fEnd st1"
    by simp_all
  from fr1 k(1) have cpos: "0 < fCursor st1" and Qfree: "Q \<inter> {fCursor st1 ..< fEnd st1} = {}"
    and Qc: "Q \<subseteq> covered (heap m1 @ extern m1)"
    unfolding frame_def by auto
  let ?c = "fCursor st1" and ?e = "a + uint sz"
  have sz0: "0 \<le> uint sz" by simp
  have room: "?e + 9 \<le> fEnd st1" using k(3) us by simp
  have ord: "?c \<le> a" "a \<le> ?e" using k(2) sz0 by linarith+
  let ?m2 = "clobber a (uint sz) (mem m1)"
  let ?m3 = "store ?e (Action (FnReleaser (unat sz))) ?m2"
  let ?m4 = "store (?e + 8) (Pad (ucast padding)) ?m3"
  from f have st': "st' = st1\<lparr>fCursor := ?e + 9, fDtorCursor := ?e + 9\<rparr>"
    and m': "m' = m1\<lparr>mem := ?m4\<rparr>"
    by (auto simp: installFooter_def installRaw_def add.commute add.left_commute
        split: if_splits)
  have subo: "{a ..< a + uint sz} \<subseteq> {?c ..< fEnd st1}"
    by (rule ivl_sub) (use ord room in linarith)+
  have subf: "{?e ..< ?e + 9} \<subseteq> {?c ..< fEnd st1}"
    by (rule ivl_sub) (use ord room in linarith)+
  have subr: "{?e + 9 ..< fEnd st1} \<subseteq> {?c ..< fEnd st1}"
    by (rule ivl_sub) (use ord room in linarith)+
  have Qf: "Q \<inter> {?e ..< ?e + 9} = {}" using Qfree subf by blast
  have p2: "preserves Q (mem m1) ?m2" by (rule preserves_clobber_in [OF Qfree subo])
  have p3: "preserves Q ?m2 ?m3" by (rule preserves_store_in [OF Qf]) simp
  have p4: "preserves Q ?m3 ?m4" by (rule preserves_store_in [OF Qf]) simp
  have pres: "preserves Q (mem m1) ?m4" using p2 p3 p4 by (blast intro: preserves_trans)
  have free: "Q \<inter> {?e + 9 ..< fEnd st1} = {}" using Qfree subr by blast
  have pos: "0 < ?e + 9" using cpos ord by linarith
  have "frame Q st' m'"
    unfolding frame_def using Qc free pos unfolding st' m' by simp
  moreover have "preserves Q (mem m) (mem m')"
    using p1 pres unfolding m' by (simp add: preserves_trans)
  ultimately show ?thesis by simp
qed

lemma run_frame:
  assumes "run reqs blocks (st, m) = Inr (as, blocks', st', m')"
    and "frame Q st m"
    and "\<forall>r\<in>set reqs. request_ok r"
  shows "frame Q st' m' \<and> preserves Q (mem m) (mem m')"
  using assms
proof (induction reqs arbitrary: blocks st m as)
  case Nil
  then show ?case by (simp add: preserves_refl)
next
  case (Cons rq reqs)
  from Cons.prems(1) obtain a bl1 st1 m1 as1 where
    mk: "make rq blocks (st, m) = Inr (a, bl1, st1, m1)"
    and rec: "run reqs bl1 (st1, m1) = Inr (as1, blocks', st', m')"
    by (auto split: sum.splits)
  from Cons.prems(3) have ok: "request_ok rq" and oks: "\<forall>r\<in>set reqs. request_ok r" by simp_all
  have "frame Q st1 m1 \<and> preserves Q (mem m) (mem m1)"
  proof (cases rq)
    case (Object sz al)
    with mk ok show ?thesis using makeObject_frame [OF _ Cons.prems(2)] by simp
  next
    case (Bytes sz al)
    with mk show ?thesis using makeBytes_frame [OF _ Cons.prems(2)] by simp
  qed
  then have fr1: "frame Q st1 m1" and p1: "preserves Q (mem m) (mem m1)" by simp_all
  from Cons.IH [OF rec fr1 oks] p1 show ?case by (auto intro: preserves_trans)
qed

section \<open>Growth policy: the claims about \<open>ensureSpace\<close>\<close>

text \<open>
  Claim C3. Every arithmetic step of \<open>ensureSpace\<close> whose exact result does not fit in
  32 bits is fatal: when the object size plus the overhead exceeds the maximum, when the
  alignment overhead \<open>alignment - 1\<close> is not representable (alignment 0), when
  adding the alignment overhead exceeds the maximum, and when the final round-up would
  exceed it, the call ends in \<open>Abort\<close>, whatever the allocator would have returned.
  A call that returns has allocated a block whose size is the exact, unwrapped value of
  the computation on integers. The only outcomes other than returning are the abort and
  the failure of the system allocator, both fatal: there is no error value to recover
  from.
\<close>

theorem ensureSpace_overflow_is_fatal:
  "(4294967295 < uint sz + uint overhead \<longrightarrow> ensureSpace sz alignment nb (st, m) = Inl Abort)
   \<and> (alignment = 0 \<longrightarrow> ensureSpace sz alignment nb (st, m) = Inl Abort)
   \<and> (4294967295 < uint sz + uint overhead + (uint alignment - 1)
          \<longrightarrow> ensureSpace sz alignment nb (st, m) = Inl Abort)
   \<and> (let a = max (uint sz + uint overhead + (uint alignment - 1)) (uint (fNextHeapAlloc st))
        in 4294967295 < a + (if 32768 < a then 4095 else 15)
          \<longrightarrow> ensureSpace sz alignment nb (st, m) = Inl Abort)
   \<and> (\<forall>st' m'. ensureSpace sz alignment nb (st, m) = Inr (st', m') \<longrightarrow>
          (let a = max (uint sz + uint overhead + (uint alignment - 1)) (uint (fNextHeapAlloc st));
               k = (if 32768 < a then 4096 else 16)
           in heap m' = (nb, (a + (k - 1)) div k * k) # heap m
              \<and> fEnd st' = nb + (a + (k - 1)) div k * k))
   \<and> (\<forall>e. ensureSpace sz alignment nb (st, m) = Inl e \<longrightarrow> e = Abort \<or> e = OutOfMemory)"
proof -
  have ab: "ensureSpace_size sz alignment st = Inl Abort
      \<Longrightarrow> ensureSpace sz alignment nb (st, m) = Inl Abort"
    by (simp add: ensureSpace_def)
  have 1: "4294967295 < uint sz + uint overhead \<longrightarrow> ensureSpace sz alignment nb (st, m) = Inl Abort"
  proof
    assume "4294967295 < uint sz + uint overhead"
    then have "4294967295 < uint sz + 26" by (simp add: uint_overhead)
    then show "ensureSpace sz alignment nb (st, m) = Inl Abort"
      by (intro ab ensureSpace_size_Abort) blast
  qed
  have 2: "alignment = 0 \<longrightarrow> ensureSpace sz alignment nb (st, m) = Inl Abort"
  proof
    assume "alignment = 0"
    then show "ensureSpace sz alignment nb (st, m) = Inl Abort"
      by (intro ab ensureSpace_size_Abort) blast
  qed
  have 3: "4294967295 < uint sz + uint overhead + (uint alignment - 1)
          \<longrightarrow> ensureSpace sz alignment nb (st, m) = Inl Abort"
  proof
    assume "4294967295 < uint sz + uint overhead + (uint alignment - 1)"
    then have "4294967295 < uint sz + 26 + (uint alignment - 1)" by (simp add: uint_overhead)
    then show "ensureSpace sz alignment nb (st, m) = Inl Abort"
      by (intro ab ensureSpace_size_Abort) blast
  qed
  have 4: "let a = max (uint sz + uint overhead + (uint alignment - 1)) (uint (fNextHeapAlloc st))
        in 4294967295 < a + (if 32768 < a then 4095 else 15)
          \<longrightarrow> ensureSpace sz alignment nb (st, m) = Inl Abort"
  proof -
    have "4294967295 < max (uint sz + 26 + (uint alignment - 1)) (uint (fNextHeapAlloc st))
       + (if 32768 < max (uint sz + 26 + (uint alignment - 1)) (uint (fNextHeapAlloc st))
          then 4095 else 15) \<Longrightarrow> ensureSpace sz alignment nb (st, m) = Inl Abort"
      by (intro ab ensureSpace_size_Abort) blast
    then show ?thesis by (simp only: Let_def uint_overhead) blast
  qed
  have 5: "\<forall>st' m'. ensureSpace sz alignment nb (st, m) = Inr (st', m') \<longrightarrow>
          (let a = max (uint sz + uint overhead + (uint alignment - 1)) (uint (fNextHeapAlloc st));
               k = (if 32768 < a then 4096 else 16)
           in heap m' = (nb, (a + (k - 1)) div k * k) # heap m
              \<and> fEnd st' = nb + (a + (k - 1)) div k * k)"
  proof (intro allI impI)
    fix st' m'
    assume r: "ensureSpace sz alignment nb (st, m) = Inr (st', m')"
    from ensureSpace_InrD [OF r] obtain n st1 where
      s: "ensureSpace_size sz alignment st = Inr (n, st1)"
      and st': "st' = st1\<lparr>fCursor := nb + 17, fDtorCursor := nb + 17, fEnd := nb + uint n\<rparr>"
      and h: "heap m' = (nb, uint n) # heap m"
      by auto
    from ensureSpace_size_InrD(7) [OF s] h st'
    show "let a = max (uint sz + uint overhead + (uint alignment - 1)) (uint (fNextHeapAlloc st));
               k = (if 32768 < a then 4096 else 16)
           in heap m' = (nb, (a + (k - 1)) div k * k) # heap m
              \<and> fEnd st' = nb + (a + (k - 1)) div k * k"
      by (simp add: uint_overhead Let_def)
  qed
  have 6: "\<forall>e. ensureSpace sz alignment nb (st, m) = Inl e \<longrightarrow> e = Abort \<or> e = OutOfMemory"
    using ensureSpace_Inl [of sz alignment nb st m] by blast
  from 1 2 3 4 5 6 show ?thesis by blast
qed


theorem ensureSpace_overflow_is_fatal_witness:
  "ensureSpace 0xFFFFFFF0 1 65536
     (\<lparr>fDtorCursor = 0, fCursor = 0, fEnd = 0, fNextHeapAlloc = 1024,
        fYetNextHeapAlloc = 1024\<rparr>, fresh_machine []) = Inl Abort
   \<and> (\<exists>st' m'. ensureSpace 100 8 65536
          (\<lparr>fDtorCursor = 0, fCursor = 0, fEnd = 0, fNextHeapAlloc = 1024,
             fYetNextHeapAlloc = 1024\<rparr>, fresh_machine []) = Inr (st', m')
        \<and> heap m' = [(65536, 1024)] \<and> fEnd st' = 65536 + 1024)"
proof -
  let ?st = "\<lparr>fDtorCursor = 0, fCursor = 0, fEnd = 0, fNextHeapAlloc = 1024,
        fYetNextHeapAlloc = 1024\<rparr>"
  have "(4294967295::int) < uint (0xFFFFFFF0 :: u32) + uint overhead"
    by (simp add: uint_overhead)
  then have 1: "ensureSpace 0xFFFFFFF0 1 65536 (?st, fresh_machine []) = Inl Abort"
    using ensureSpace_overflow_is_fatal [of "0xFFFFFFF0" 1 65536 ?st "fresh_machine []"]
    by blast
  obtain st' m' where r: "ensureSpace 100 8 65536 (?st, fresh_machine []) = Inr (st', m')"
    by (simp add: arena_eval)
  have "heap m' = [(65536, 1024)] \<and> fEnd st' = 65536 + 1024"
    using ensureSpace_overflow_is_fatal [of 100 8 65536 ?st "fresh_machine []"] r
    by (simp add: uint_overhead Let_def fresh_machine_def)
  with 1 r show ?thesis by blast
qed

text \<open>
  Claim C4. A call of \<open>ensureSpace\<close> that returns has used the value that
  \<open>fNextHeapAlloc\<close> had on entry as the minimum size of the new block (the block is at
  least that large, and is that value rounded up when the request is not larger), and has
  advanced the pair of counters from \<open>(next, yetNext)\<close> to
  \<open>(yetNext, next + yetNext)\<close> when the sum fits in 32 bits; when it does not,
  \<open>fNextHeapAlloc\<close> is set to the maximum 32-bit value and no sum is formed.
\<close>

theorem ensureSpace_fibonacci_growth:
  assumes "ensureSpace sz alignment nb (st, m) = Inr (st', m')"
  shows "(\<exists>N. heap m' = (nb, N) # heap m \<and> uint (fNextHeapAlloc st) \<le> N
            \<and> (uint sz + uint overhead + (uint alignment - 1) \<le> uint (fNextHeapAlloc st)
                 \<longrightarrow> N < uint (fNextHeapAlloc st) + 4096))
       \<and> (uint (fNextHeapAlloc st) + uint (fYetNextHeapAlloc st) \<le> 4294967295 \<longrightarrow>
            fNextHeapAlloc st' = fYetNextHeapAlloc st
            \<and> uint (fYetNextHeapAlloc st') = uint (fNextHeapAlloc st) + uint (fYetNextHeapAlloc st))
       \<and> (4294967295 < uint (fNextHeapAlloc st) + uint (fYetNextHeapAlloc st) \<longrightarrow>
            fNextHeapAlloc st' = maxSize \<and> uint (fNextHeapAlloc st') = 4294967295
            \<and> fYetNextHeapAlloc st' = fYetNextHeapAlloc st)"
proof -
  from ensureSpace_InrD [OF assms] obtain n st1 where
    s: "ensureSpace_size sz alignment st = Inr (n, st1)"
    and st': "st' = st1\<lparr>fCursor := nb + 17, fDtorCursor := nb + 17, fEnd := nb + uint n\<rparr>"
    and h: "heap m' = (nb, uint n) # heap m"
    by auto
  note d = ensureSpace_size_InrD [OF s]
  define a where "a = max (uint sz + 26 + (uint alignment - 1)) (uint (fNextHeapAlloc st))"
  have le: "fYetNextHeapAlloc st \<le> maxSize - fNextHeapAlloc st
      \<longleftrightarrow> uint (fNextHeapAlloc st) + uint (fYetNextHeapAlloc st) \<le> 4294967295"
    unfolding u32_le_max_minus uint_add_le_iff by (simp only: add.commute)
  have sum: "uint (fNextHeapAlloc st + fYetNextHeapAlloc st)
      = uint (fNextHeapAlloc st) + uint (fYetNextHeapAlloc st)"
    if "uint (fNextHeapAlloc st) + uint (fYetNextHeapAlloc st) \<le> 4294967295"
    using that by (rule uint_add_no_wrap)
  have N1: "uint (fNextHeapAlloc st) \<le> uint n" using d(3) by simp
  have N2: "uint n < uint (fNextHeapAlloc st) + 4096"
    if "uint sz + uint overhead + (uint alignment - 1) \<le> uint (fNextHeapAlloc st)"
  proof -
    from that have "a = uint (fNextHeapAlloc st)" unfolding a_def uint_overhead by simp
    moreover have "uint n < a + 4096"
      using d(4,5) unfolding a_def [symmetric] by (cases "32768 < a") auto
    ultimately show ?thesis by simp
  qed
  have c1: "fNextHeapAlloc st' = fYetNextHeapAlloc st
            \<and> uint (fYetNextHeapAlloc st') = uint (fNextHeapAlloc st) + uint (fYetNextHeapAlloc st)"
    if "uint (fNextHeapAlloc st) + uint (fYetNextHeapAlloc st) \<le> 4294967295"
    using that le sum d(6) st' by simp
  have c2: "fNextHeapAlloc st' = maxSize \<and> uint (fNextHeapAlloc st') = 4294967295
            \<and> fYetNextHeapAlloc st' = fYetNextHeapAlloc st"
    if "4294967295 < uint (fNextHeapAlloc st) + uint (fYetNextHeapAlloc st)"
    using that le d(6) st' by (simp add: uint_maxSize)
  from h N1 N2 c1 c2 show ?thesis by blast
qed

theorem ensureSpace_fibonacci_growth_witness:
  "\<exists>st' m'. ensureSpace 100 8 65536
          (\<lparr>fDtorCursor = 0, fCursor = 0, fEnd = 0, fNextHeapAlloc = 1024,
             fYetNextHeapAlloc = 2048\<rparr>, fresh_machine []) = Inr (st', m')
        \<and> fNextHeapAlloc st' = 2048 \<and> uint (fYetNextHeapAlloc st') = 3072
        \<and> (\<exists>N. heap m' = [(65536, N)] \<and> 1024 \<le> N \<and> N < 1024 + 4096)"
proof -
  let ?st = "\<lparr>fDtorCursor = 0, fCursor = 0, fEnd = 0, fNextHeapAlloc = 1024,
        fYetNextHeapAlloc = 2048\<rparr>"
  obtain st' m' where r: "ensureSpace 100 8 65536 (?st, fresh_machine []) = Inr (st', m')"
    by (simp add: arena_eval)
  from ensureSpace_fibonacci_growth [OF r] r show ?thesis
    by (simp add: uint_overhead fresh_machine_def)
qed

text \<open>
  Claim C5. The block that a returning call of \<open>ensureSpace\<close> allocates has the size
  \<open>max(objSizeAndOverhead, minAllocationSize)\<close> rounded up to a multiple of 4096 when
  that maximum exceeds 32768 and to a multiple of 16 otherwise: the size is a multiple of
  the boundary, not below the maximum, and less than one boundary above it.
\<close>

theorem ensureSpace_block_size:
  assumes "ensureSpace sz alignment nb (st, m) = Inr (st', m')"
  shows "\<exists>N. heap m' = (nb, N) # heap m \<and> fEnd st' = nb + N
          \<and> (let a = max (uint sz + uint overhead + (uint alignment - 1))
                         (uint (fNextHeapAlloc st))
             in a \<le> N \<and> (if 32768 < a then 4096 dvd N \<and> N < a + 4096
                           else 16 dvd N \<and> N < a + 16))"
proof -
  from ensureSpace_InrD [OF assms] obtain n st1 where
    s: "ensureSpace_size sz alignment st = Inr (n, st1)"
    and st': "st' = st1\<lparr>fCursor := nb + 17, fDtorCursor := nb + 17, fEnd := nb + uint n\<rparr>"
    and h: "heap m' = (nb, uint n) # heap m"
    by auto
  note d = ensureSpace_size_InrD [OF s]
  have "fEnd st' = nb + uint n" using st' by simp
  with h d(3,4,5) show ?thesis unfolding uint_overhead Let_def by auto
qed

theorem ensureSpace_block_size_witness:
  "\<exists>st' m'. ensureSpace 40000 8 65536
          (\<lparr>fDtorCursor = 0, fCursor = 0, fEnd = 0, fNextHeapAlloc = 1024,
             fYetNextHeapAlloc = 1024\<rparr>, fresh_machine []) = Inr (st', m')
        \<and> (\<exists>N. heap m' = [(65536, N)] \<and> fEnd st' = 65536 + N
               \<and> 40033 \<le> N \<and> 4096 dvd N \<and> N < 40033 + 4096)"
proof -
  let ?st = "\<lparr>fDtorCursor = 0, fCursor = 0, fEnd = 0, fNextHeapAlloc = 1024,
        fYetNextHeapAlloc = 1024\<rparr>"
  obtain st' m' where r: "ensureSpace 40000 8 65536 (?st, fresh_machine []) = Inr (st', m')"
    by (simp add: arena_eval)
  from ensureSpace_block_size [OF r] r show ?thesis
    by (simp add: uint_overhead fresh_machine_def Let_def)
qed

section \<open>Teardown: the claims about the footer chain\<close>



text \<open>
  Claim C7 says that every block obtained from the system is freed exactly once when the
  arena is torn down. The code does not do this on the following input. An arena without
  a caller block serves 0x80000000 trivially destructible bytes and then one destructible
  object of one byte; both fit the one block of 2147487744 bytes that \<open>ensureSpace\<close>
  takes from the system at 65536, and that block is live afterwards. Line 145 stores the
  length of the run, 0x80000000, as a \<open>uint32_t\<close>; line 48 of \<open>SkipPod\<close> reads it
  as an \<open>int32_t\<close>, so the walk of the teardown goes 2^31 bytes up instead of down,
  leaves the chain, and never comes to the \<open>NextBlock\<close> record that frees the block:
  with fewer than three iterations allowed the teardown has not got that far, and with
  any larger bound it ends in undefined behaviour, the block still live.
\<close>

theorem heap_block_never_freed:
  "arena_allocations 0 0 0 (fresh_machine []) [Bytes 0x80000000 1, Object 1 1] [65536]
     = Inr ([65553, 2147549214], [(65536, 2147487744)], [])
   \<and> (\<forall>fuel. arena_session 0 0 0 (fresh_machine []) [Bytes 0x80000000 1, Object 1 1]
                 [65536] fuel
               = Inl (if fuel < 3 then OutOfFuel else UndefinedBehaviour))"
proof (intro conjI allI)
  show "arena_allocations 0 0 0 (fresh_machine []) [Bytes 0x80000000 1, Object 1 1] [65536]
     = Inr ([65553, 2147549214], [(65536, 2147487744)], [])"
    by (simp add: arena_allocations_def run_eval)
next
  fix fuel
  consider "fuel = 0" | "fuel = Suc 0" | "fuel = Suc (Suc 0)"
    | n where "fuel = Suc (Suc (Suc n))"
    by (metis not0_implies_Suc)
  then show "arena_session 0 0 0 (fresh_machine []) [Bytes 0x80000000 1, Object 1 1]
                 [65536] fuel
               = Inl (if fuel < 3 then OutOfFuel else UndefinedBehaviour)"
  proof cases
    case 1
    then show ?thesis
      by (simp add: arena_session_def run_eval SkArenaAlloc_dtor_def
          SkipPod_def releaser_def end_chain_def delete_array_def)
  next
    case 2
    then show ?thesis
      by (simp add: arena_session_def run_eval SkArenaAlloc_dtor_def
          SkipPod_def releaser_def end_chain_def delete_array_def)
  next
    case 3
    then show ?thesis
      by (simp add: arena_session_def run_eval SkArenaAlloc_dtor_def
          SkipPod_def releaser_def end_chain_def delete_array_def)
  next
    case 4
    then show ?thesis
      by (simp add: arena_session_def run_eval SkArenaAlloc_dtor_def
          SkipPod_def releaser_def end_chain_def delete_array_def)
  qed
qed

text \<open>
  Everywhere else the blocks are freed as intended. Over the whole life of an arena whose
  trivially destructible data between two footers stays below \<open>2^31\<close> bytes: the run
  itself releases nothing (it makes no event at all); the blocks created during growth are
  exactly the blocks taken from the system, all different; the caller's first block is
  not one of them; and the teardown, which returns, releases exactly these blocks, each
  once, in the order of their creation, each from the \<open>NextBlock\<close> call that its
  own record makes (a release of a block that is not live would be undefined behaviour,
  and the teardown has none).
\<close>

theorem small_pods_blocks_freed_once:
  assumes "SkArenaAlloc block sz fha m0 = Inr (st0, m1)"
    and "footer_size \<le> sz \<and> block \<noteq> 0 \<longrightarrow> 0 < block \<and> (block, int sz) \<in> set (extern m0)"
    and "run reqs blocks (st0, m1) = Inr (as, blocks', st, m)"
    and "pods_small reqs blocks (st0, m1)"
    and "\<forall>r\<in>set reqs. request_ok r"
  shows "events m = events m0 \<and>
     (\<exists>nbs f0. blocks = nbs @ blocks' \<and> map fst (heap m) = rev nbs @ map fst (heap m0)
        \<and> distinct nbs \<and> (footer_size \<le> sz \<and> block \<noteq> 0 \<longrightarrow> block \<notin> set nbs)
        \<and> (\<forall>f\<ge>f0. \<exists>m'. SkArenaAlloc_dtor f st m = Inr m'
              \<and> deleted (events m') = deleted (events m0) @ nbs
              \<and> heap m' = filter (\<lambda>r. fst r \<notin> set nbs) (heap m)))"
proof -
  have small: "pods_small reqs blocks (st0, m1) \<or> (\<forall>r\<in>set reqs. \<exists>sz al. r = Object sz al)"
    using assms(4) by blast
  from lifecycle [OF assms(1,2,3) small assms(5)] obtain nbs hs f0 where
    k: "blocks = nbs @ blocks'" "heap m = hs @ heap m0" "map fst hs = rev nbs"
      "distinct nbs" "events m = events m0"
      "footer_size \<le> sz \<and> block \<noteq> 0 \<longrightarrow> set nbs \<inter> {block ..< block + 9} = {}"
    and t: "\<forall>f\<ge>f0. SkArenaAlloc_dtor f st m =
           Inr (m\<lparr>events := events m0 @ map Destructed (rev (objects_of reqs as))
                      @ (if footer_size \<le> sz \<and> block \<noteq> 0 then [EndOfChain (block + 9)] else [])
                      @ map Deleted nbs,
                   heap := filter (\<lambda>r. fst r \<notin> set nbs) (heap m)\<rparr>)"
    by blast
  have nb: "block \<notin> set nbs" if "footer_size \<le> sz \<and> block \<noteq> 0"
  proof -
    have "block \<in> {block ..< block + 9}" by simp
    with k(6) that show ?thesis by blast
  qed
  have d: "deleted (events m0 @ map Destructed (rev (objects_of reqs as))
                      @ (if footer_size \<le> sz \<and> block \<noteq> 0 then [EndOfChain (block + 9)] else [])
                      @ map Deleted nbs) = deleted (events m0) @ nbs"
    by (simp add: deleted_append deleted_map_Destructed deleted_map_Deleted)
  have "\<forall>f\<ge>f0. \<exists>m'. SkArenaAlloc_dtor f st m = Inr m'
              \<and> deleted (events m') = deleted (events m0) @ nbs
              \<and> heap m' = filter (\<lambda>r. fst r \<notin> set nbs) (heap m)"
    using t d by simp
  then show ?thesis
    using k(1,2,3,4,5) nb by (intro conjI exI [of _ nbs] exI [of _ f0]) auto
qed

theorem small_pods_blocks_freed_once_witness:
  "\<exists>st0 m1 as st m f0.
     SkArenaAlloc 4096 64 0 (fresh_machine [(4096, 64)]) = Inr (st0, m1)
     \<and> run [Bytes 3 1, Object 8 8, Object 40 8] [65536] (st0, m1) = Inr (as, [], st, m)
     \<and> events m = [] \<and> map fst (heap m) = [65536]
     \<and> (\<forall>f\<ge>f0. \<exists>m'. SkArenaAlloc_dtor f st m = Inr m'
           \<and> deleted (events m') = [65536] \<and> heap m' = [])"
proof -
  have "\<exists>st0 m1 as st m.
     SkArenaAlloc 4096 64 0 (fresh_machine [(4096, 64)]) = Inr (st0, m1)
     \<and> run [Bytes 3 1, Object 8 8, Object 40 8] [65536] (st0, m1) = Inr (as, [], st, m)
     \<and> pods_small [Bytes 3 1, Object 8 8, Object 40 8] [65536] (st0, m1)
     \<and> map fst (heap m) = [65536]"
    by (simp add: run_eval)
  then obtain st0 m1 as st m where
    c: "SkArenaAlloc 4096 64 0 (fresh_machine [(4096, 64)]) = Inr (st0, m1)"
    and r: "run [Bytes 3 1, Object 8 8, Object 40 8] [65536] (st0, m1) = Inr (as, [], st, m)"
    and p: "pods_small [Bytes 3 1, Object 8 8, Object 40 8] [65536] (st0, m1)"
    and h: "map fst (heap m) = [65536]"
    by (elim exE conjE)
  have ext: "footer_size \<le> 64 \<and> (4096::int) \<noteq> 0 \<longrightarrow>
      0 < (4096::int) \<and> (4096, int 64) \<in> set (extern (fresh_machine [(4096, 64)]))"
    by (simp add: fresh_machine_def)
  have ok: "\<forall>r\<in>set [Bytes 3 1, Object 8 8, Object 40 8]. request_ok r" by simp
  from small_pods_blocks_freed_once [OF c ext r p ok] obtain nbs f0 where
    k: "events m = events (fresh_machine [(4096, 64)])" "[65536] = nbs @ []"
    and t: "\<forall>f\<ge>f0. \<exists>m'. SkArenaAlloc_dtor f st m = Inr m'
              \<and> deleted (events m') = deleted (events (fresh_machine [(4096, 64)])) @ nbs
              \<and> heap m' = filter (\<lambda>r. fst r \<notin> set nbs) (heap m)"
    by blast
  from k(2) have nbs: "nbs = [65536]" by simp
  have "filter (\<lambda>r. fst r \<notin> set nbs) (heap m) = []"
    using h unfolding nbs by (auto simp: filter_empty_conv)
  with t have "\<forall>f\<ge>f0. \<exists>m'. SkArenaAlloc_dtor f st m = Inr m'
           \<and> deleted (events m') = [65536] \<and> heap m' = []"
    unfolding nbs by (simp add: fresh_machine_def)
  with c r k(1) h show ?thesis by (auto simp: fresh_machine_def)
qed

text \<open>
  Claim C8, as stated, fails: an arena constructed without a caller block installs
  nothing at its construction (the machine is unchanged), and the walk over its chain
  makes its destructor calls and releases its block without any call of \<open>end_chain\<close>:
  the chain ends at the null back-pointer that the first heap block stores.
\<close>

theorem sentinel_absent_counterexample:
  "SkArenaAlloc 0 0 0 (fresh_machine []) =
     Inr (\<lparr>fDtorCursor = 0, fCursor = 0, fEnd = 0, fNextHeapAlloc = 1024,
            fYetNextHeapAlloc = 1024\<rparr>, fresh_machine [])
   \<and> arena_session 0 0 0 (fresh_machine []) [Object 8 8] [65536] 3
       = Inr ([65560], [Destructed 65560, Deleted 65536])"
  by (simp add: arena_session_def run_eval SkArenaAlloc_dtor_def numeral_3_eq_3
      SkipPod_def releaser_def end_chain_def delete_array_def)

text \<open>
  Claim C8, amended. For every arena constructed over a caller block that holds at least
  one footer record, the end-of-chain sentinel is installed at construction at the very
  start of the block, it is still there, unchanged, after any run of requests, and the
  walk from the \<open>fDtorCursor\<close> reached makes exactly one call of \<open>end_chain\<close>, at
  that sentinel, after every destructor call and before any block is released.
\<close>

theorem sentinel_terminates_chain:
  assumes "SkArenaAlloc block sz fha m0 = Inr (st0, m1)"
    and "footer_size \<le> sz" and "0 < block" and "(block, int sz) \<in> set (extern m0)"
    and "run reqs blocks (st0, m1) = Inr (as, blocks', st, m)"
    and "pods_small reqs blocks (st0, m1)"
    and "\<forall>r\<in>set reqs. request_ok r"
  shows "mem m1 block = Some (Action FnEndChain) \<and> mem m1 (block + 8) = Some (Pad 0)
     \<and> mem m block = Some (Action FnEndChain) \<and> mem m (block + 8) = Some (Pad 0)
     \<and> (\<exists>nbs f0. blocks = nbs @ blocks' \<and>
          (\<forall>f\<ge>f0. \<exists>m'. SkArenaAlloc_dtor f st m = Inr m' \<and>
             events m' = events m0 @ map Destructed (rev (objects_of reqs as))
                @ [EndOfChain (block + 9)] @ map Deleted nbs))"
proof -
  have t: "footer_size \<le> sz \<and> block \<noteq> 0" using assms(2,3) by simp
  have ext: "footer_size \<le> sz \<and> block \<noteq> 0 \<longrightarrow> 0 < block \<and> (block, int sz) \<in> set (extern m0)"
    using assms(3,4) by simp
  have small: "pods_small reqs blocks (st0, m1) \<or> (\<forall>r\<in>set reqs. \<exists>sz al. r = Object sz al)"
    using assms(6) by blast
  from SkArenaAlloc_inv [OF assms(1) ext] t
  have c1: "mem m1 block = Some (Action FnEndChain)" "mem m1 (block + 8) = Some (Pad 0)"
    by blast+
  from lifecycle [OF assms(1) ext assms(5) small assms(7)] t obtain nbs hs f0 where
    k: "blocks = nbs @ blocks'"
      "mem m block = Some (Action FnEndChain)" "mem m (block + 8) = Some (Pad 0)"
    and tr: "\<forall>f\<ge>f0. SkArenaAlloc_dtor f st m =
           Inr (m\<lparr>events := events m0 @ map Destructed (rev (objects_of reqs as))
                      @ (if footer_size \<le> sz \<and> block \<noteq> 0 then [EndOfChain (block + 9)] else [])
                      @ map Deleted nbs,
                   heap := filter (\<lambda>r. fst r \<notin> set nbs) (heap m)\<rparr>)"
    by blast
  have "\<forall>f\<ge>f0. \<exists>m'. SkArenaAlloc_dtor f st m = Inr m' \<and>
             events m' = events m0 @ map Destructed (rev (objects_of reqs as))
                @ [EndOfChain (block + 9)] @ map Deleted nbs"
    using tr t by simp
  with c1 k show ?thesis by blast
qed

theorem sentinel_terminates_chain_witness:
  "\<exists>st0 m1 as st m f0.
     SkArenaAlloc 4096 64 0 (fresh_machine [(4096, 64)]) = Inr (st0, m1)
     \<and> run [Bytes 3 1, Object 8 8, Object 40 8] [65536] (st0, m1) = Inr (as, [], st, m)
     \<and> as = [4105, 4128, 65560]
     \<and> mem m 4096 = Some (Action FnEndChain) \<and> mem m 4104 = Some (Pad 0)
     \<and> (\<forall>f\<ge>f0. \<exists>m'. SkArenaAlloc_dtor f st m = Inr m' \<and>
          events m' = [Destructed 65560, Destructed 4128, EndOfChain 4105, Deleted 65536])"
proof -
  have "\<exists>st0 m1 as st m.
     SkArenaAlloc 4096 64 0 (fresh_machine [(4096, 64)]) = Inr (st0, m1)
     \<and> run [Bytes 3 1, Object 8 8, Object 40 8] [65536] (st0, m1) = Inr (as, [], st, m)
     \<and> pods_small [Bytes 3 1, Object 8 8, Object 40 8] [65536] (st0, m1)
     \<and> as = [4105, 4128, 65560]"
    by (simp add: run_eval)
  then obtain st0 m1 as st m where
    c: "SkArenaAlloc 4096 64 0 (fresh_machine [(4096, 64)]) = Inr (st0, m1)"
    and r: "run [Bytes 3 1, Object 8 8, Object 40 8] [65536] (st0, m1) = Inr (as, [], st, m)"
    and p: "pods_small [Bytes 3 1, Object 8 8, Object 40 8] [65536] (st0, m1)"
    and as: "as = [4105, 4128, 65560]"
    by (elim exE conjE)
  have f: "footer_size \<le> 64" by (simp add: footer_size_def ptr_size_def)
  have b: "0 < (4096::int)" by simp
  have ext: "(4096, int 64) \<in> set (extern (fresh_machine [(4096, 64)]))"
    by (simp add: fresh_machine_def)
  have ok: "\<forall>r\<in>set [Bytes 3 1, Object 8 8, Object 40 8]. request_ok r" by simp
  from sentinel_terminates_chain [OF c f b ext r p ok] c r as show ?thesis
    by (simp add: fresh_machine_def) 
qed


section \<open>Skip records\<close>

text \<open>
  Claim C2 says that the one skip record written for a run of trivially destructible
  allocations stores \<open>fCursor - fDtorCursor\<close> and that decoding it in the teardown
  returns the start of the run. The record is written as the claim says, but the decoding
  differs once the run has 2^31 bytes or more. An arena without a caller block serves
  0x80000000 trivially destructible bytes, handed out at 65553, and then one destructible
  object of one byte, handed out at 2147549214. The allocation of the object writes one
  skip record right below the object: the count 0x80000000 at 2147549201 (line 145, a
  \<open>uint32_t\<close>) and the \<open>SkipPod\<close> footer after it. \<open>SkipPod\<close> reads the count as an
  \<open>int32_t\<close> (line 48), which is -2^31, and returns 2147549201 + 2^31 = 4295032849,
  an address beyond the block, where the start of the run, 65553, was to be returned.
\<close>

theorem skip_count_read_as_signed:
  "\<exists>st0 m1 st m.
     SkArenaAlloc 0 0 0 (fresh_machine []) = Inr (st0, m1)
     \<and> run [Bytes 0x80000000 1, Object 1 1] [65536] (st0, m1)
         = Inr ([65553, 2147549214], [], st, m)
     \<and> mem m 2147549201 = Some (U32 0x80000000)
     \<and> mem m 2147549205 = Some (Action FnSkipPod)
     \<and> mem m 2147549213 = Some (Pad 0)
     \<and> SkipPod 2147549214 m = Inr (4295032849, m)
     \<and> 2147549201 - uint (0x80000000 :: u32) = 65553"
  by (simp add: run_eval SkipPod_def)

section \<open>The arena without a usable first block\<close>

text \<open>
  Claim C10. An arena constructed over a caller block smaller than one footer record
  (\<open>sz < footer_size\<close>, which includes size zero): all three cursors are null and the
  machine is exactly as before the construction, so no sentinel has been written; the
  arena is the very arena that a null block pointer gives, so the block pointer is not
  kept and nothing later can reach the caller's buffer through it; destroying the arena
  at once returns the machine unchanged, whatever the bound on the iterations; the first
  allocation fails when the system has no block to give, and otherwise is exactly: call
  \<open>ensureSpace\<close>, then restart on the new state; an allocation that is served lies
  inside blocks taken from the system during that very allocation (at least one) and
  outside all memory that existed before; and no run of requests, however long, changes a
  cell in the memory that existed before the construction, the caller's buffer included.
\<close>

theorem small_block_arena:
  assumes "sz < footer_size" and "SkArenaAlloc block sz fha m0 = Inr (st0, m1)"
  shows "fCursor st0 = 0 \<and> fDtorCursor st0 = 0 \<and> fEnd st0 = 0 \<and> m1 = m0
     \<and> SkArenaAlloc block sz fha m0 = SkArenaAlloc 0 sz fha m0
     \<and> (\<forall>fuel. SkArenaAlloc_dtor fuel st0 m1 = Inr m1)
     \<and> (\<forall>sif al. allocObjectWithFooter sif al [] (st0, m1) = Inl OutOfMemory)
     \<and> (\<forall>sif al nb bl. allocObjectWithFooter sif al (nb # bl) (st0, m1) =
           (case ensureSpace sif al nb (st0, m1) of
              Inl e \<Rightarrow> Inl e
            | Inr sm \<Rightarrow> allocObjectWithFooter sif al bl sm))
     \<and> (\<forall>sif al blocks a blocks' st' m'.
           allocObjectWithFooter sif al blocks (st0, m1) = Inr (a, blocks', st', m') \<longrightarrow>
           (\<exists>nbs hs. blocks = nbs @ blocks' \<and> nbs \<noteq> [] \<and> heap m' = hs @ heap m0
              \<and> map fst hs = rev nbs \<and> {a ..< a + uint sif} \<subseteq> covered hs
              \<and> {a ..< a + uint sif} \<inter> covered (heap m0 @ extern m0) = {}))
     \<and> (\<forall>reqs blocks as blocks' st m.
           run reqs blocks (st0, m1) = Inr (as, blocks', st, m) \<longrightarrow>
           (\<forall>r\<in>set reqs. request_ok r) \<longrightarrow>
           preserves (covered (heap m0 @ extern m0)) (mem m0) (mem m))"
proof -
  let ?P = "covered (heap m0 @ extern m0)"
  from assms have st: "fCursor st0 = 0" "fDtorCursor st0 = 0" "fEnd st0 = 0" and m1: "m1 = m0"
    by (auto simp: SkArenaAlloc_def Let_def installFooter_def split: sum.splits if_splits)
  have nb: "SkArenaAlloc block sz fha m0 = SkArenaAlloc 0 sz fha m0"
    using assms(1) by (simp add: SkArenaAlloc_def Let_def split: sum.splits)
  have inv0: "arena_inv st0 m1 [] ?P" unfolding m1 using st by (intro arena_inv_null) auto
  have d: "\<forall>fuel. SkArenaAlloc_dtor fuel st0 m1 = Inr m1"
    by (simp add: SkArenaAlloc_dtor_def st RunDtorsOnBlock_null)
  have a0: "\<forall>sif al. allocObjectWithFooter sif al [] (st0, m1) = Inl OutOfMemory"
    by (simp add: allocObjectWithFooter_unfold st)
  have a1: "\<forall>sif al nb bl. allocObjectWithFooter sif al (nb # bl) (st0, m1) =
           (case ensureSpace sif al nb (st0, m1) of
              Inl e \<Rightarrow> Inl e
            | Inr sm \<Rightarrow> allocObjectWithFooter sif al bl sm)"
    by (simp add: allocObjectWithFooter_unfold st)
  have a2: "\<exists>nbs hs. blocks = nbs @ blocks' \<and> nbs \<noteq> [] \<and> heap m' = hs @ heap m0
              \<and> map fst hs = rev nbs \<and> {a ..< a + uint sif} \<subseteq> covered hs
              \<and> {a ..< a + uint sif} \<inter> covered (heap m0 @ extern m0) = {}"
    if r: "allocObjectWithFooter sif al blocks (st0, m1) = Inr (a, blocks', st', m')"
    for sif al blocks a blocks' st' m'
  proof -
    have pend: "fCursor st0 - fDtorCursor st0 < 2147483648" using st by simp
    from r obtain nb s1 k1 where e: "ensureSpace sif al nb (st0, m1) = Inr (s1, k1)"
      unfolding allocObjectWithFooter_unfold using st by (auto split: list.splits sum.splits)
    from ensureSpace_InrD [OF e] obtain n s2 where
      es: "ensureSpace_size sif al st0 = Inr (n, s2)" by blast
    note dd = ensureSpace_size_InrD [OF es]
    have "uint al \<noteq> 0" using dd(1) by (simp add: uint_0_iff)
    then have "1 \<le> uint al" using uint_ge_0 [of al] by linarith
    with dd(2) have fit: "uint sif + 13 \<le> 4294967295" by linarith
    from allocObjectWithFooter_inv [OF r inv0 pend fit] obtain nbs P' hs where
      k: "blocks = nbs @ blocks'" "arena_inv st' m' ([] @ map Deleted nbs) P'" "?P \<subseteq> P'"
        "fCursor st' \<noteq> 0" "fDtorCursor st' = fCursor st'" "fCursor st' \<le> a"
        "a + uint sif \<le> fEnd st'" "heap m' = hs @ heap m1" "map fst hs = rev nbs"
        "extern m' = extern m1"
      by blast
    from k(2,4) have free: "P' \<inter> {fDtorCursor st' ..< fEnd st'} = {}"
      and cov: "{fDtorCursor st' ..< fEnd st'} \<subseteq> covered (heap m' @ extern m')"
      unfolding arena_inv_def by auto
    have sub: "{a ..< a + uint sif} \<subseteq> {fDtorCursor st' ..< fEnd st'}"
      by (rule ivl_sub) (use k(5,6,7) in linarith)+
    have dj: "{a ..< a + uint sif} \<inter> ?P = {}" using sub free k(3) by blast
    have "covered (heap m' @ extern m') = covered hs \<union> ?P"
      unfolding k(8,10) m1 by (simp add: covered_append Un_assoc)
    with sub cov dj have inhs: "{a ..< a + uint sif} \<subseteq> covered hs" by blast
    from allocObjectWithFooter_length [OF r] st have "length blocks' < length blocks" by simp
    with k(1) have "nbs \<noteq> []" by auto
    with k(1,8,9) inhs dj show ?thesis unfolding m1 by blast
  qed
  have a3: "preserves ?P (mem m0) (mem m)"
    if r: "run reqs blocks (st0, m1) = Inr (as, blocks', st, m)"
      and ok: "\<forall>r\<in>set reqs. request_ok r"
    for reqs blocks as blocks' st m
  proof -
    have fr: "frame ?P st0 m1" unfolding frame_def m1 using st by simp
    from run_frame [OF r fr ok] show ?thesis unfolding m1 by simp
  qed
  from st m1 nb d a0 a1 a2 a3 show ?thesis by blast
qed

theorem small_block_arena_witness:
  "\<exists>st0 m1. SkArenaAlloc 4096 4 0 (fresh_machine [(4096, 4)]) = Inr (st0, m1)
     \<and> fCursor st0 = 0 \<and> fDtorCursor st0 = 0 \<and> fEnd st0 = 0
     \<and> mem m1 4096 = None
     \<and> SkArenaAlloc_dtor 0 st0 m1 = Inr m1
     \<and> allocObjectWithFooter 17 8 [] (st0, m1) = Inl OutOfMemory
     \<and> (\<exists>st' m' hs. allocObjectWithFooter 17 8 [65536] (st0, m1) = Inr (65560, [], st', m')
           \<and> heap m' = hs \<and> map fst hs = [65536] \<and> {65560 ..< 65577} \<subseteq> covered hs)
     \<and> (\<exists>as st m. run [Object 8 8, Bytes 3 1] [65536] (st0, m1) = Inr (as, [], st, m)
           \<and> preserves (covered [(4096, 4)]) (mem m1) (mem m))"
proof -
  let ?m0 = "fresh_machine [(4096, 4)]"
  have "\<exists>st0 m1 st' m' as st m. SkArenaAlloc 4096 4 0 ?m0 = Inr (st0, m1)
      \<and> allocObjectWithFooter 17 8 [65536] (st0, m1) = Inr (65560, [], st', m')
      \<and> run [Object 8 8, Bytes 3 1] [65536] (st0, m1) = Inr (as, [], st, m)"
    by (simp add: run_eval)
  then obtain st0 m1 st' m' as st m where
    c: "SkArenaAlloc 4096 4 0 ?m0 = Inr (st0, m1)"
    and a: "allocObjectWithFooter 17 8 [65536] (st0, m1) = Inr (65560, [], st', m')"
    and r: "run [Object 8 8, Bytes 3 1] [65536] (st0, m1) = Inr (as, [], st, m)"
    by (elim exE conjE)
  have lt: "4 < footer_size" by (simp add: footer_size_def ptr_size_def)
  note t = small_block_arena [OF lt c]
  note z1 = t [THEN conjunct1] and r1 = t [THEN conjunct2]
  note z2 = r1 [THEN conjunct1] and r2 = r1 [THEN conjunct2]
  note z3 = r2 [THEN conjunct1] and r3 = r2 [THEN conjunct2]
  note z4 = r3 [THEN conjunct1] and r4 = r3 [THEN conjunct2]
  note r5 = r4 [THEN conjunct2]
  note d = r5 [THEN conjunct1] and r6 = r5 [THEN conjunct2]
  note e = r6 [THEN conjunct1] and r7 = r6 [THEN conjunct2]
  note r8 = r7 [THEN conjunct2]
  note a2 = r8 [THEN conjunct1] and a3 = r8 [THEN conjunct2]
  note z = z1 z2 z3 z4
  from a2 [rule_format, OF a] obtain nbs hs where
    k: "[65536] = nbs @ []" "heap m' = hs @ heap ?m0" "map fst hs = rev nbs"
      "{65560 ..< 65560 + uint (17 :: u32)} \<subseteq> covered hs"
    by (elim exE conjE)
  from k(1) have nbs: "nbs = [65536]" by simp
  have hm: "heap m' = hs" using k(2) by (simp add: fresh_machine_def)
  have h: "map fst (heap m') = [65536] \<and> {65560 ..< 65577} \<subseteq> covered (heap m')"
    using k(3,4) unfolding hm nbs by simp
  have "preserves (covered (heap ?m0 @ extern ?m0)) (mem ?m0) (mem m)"
    by (rule a3 [rule_format, OF r]) auto
  then have pr: "preserves (covered [(4096, 4)]) (mem m1) (mem m)"
    unfolding z(4) by (simp add: fresh_machine_def)
  have mm: "mem m1 4096 = None" unfolding z(4) by (simp add: fresh_machine_def)
  have A: "\<exists>st' m' hs. allocObjectWithFooter 17 8 [65536] (st0, m1) = Inr (65560, [], st', m')
           \<and> heap m' = hs \<and> map fst hs = [65536] \<and> {65560 ..< 65577} \<subseteq> covered hs"
    by (intro exI [of _ st'] exI [of _ m'] exI [of _ "heap m'"] conjI a refl
        h [THEN conjunct1] h [THEN conjunct2])
  have B: "\<exists>as st m. run [Object 8 8, Bytes 3 1] [65536] (st0, m1) = Inr (as, [], st, m)
           \<and> preserves (covered [(4096, 4)]) (mem m1) (mem m)"
    by (intro exI [of _ as] exI [of _ st] exI [of _ m] conjI r pr)
  show ?thesis
    apply (rule exI [of _ st0], rule exI [of _ m1])
    apply (intro conjI c z(1) z(2) z(3) mm A B)
     apply (rule d [rule_format])
    apply (rule e [rule_format])
    done
qed


section \<open>Block sizes along a sequence of growths\<close>

text \<open>
  Claim C9, as stated, fails: the sizes of the blocks created one after the other need not
  be non-decreasing. An arena without a caller block serves an object of 100000 bytes and
  then one of 5000 bytes. Each request exceeds the remaining capacity and creates a block:
  the first block has 102400 bytes, the second 5040 bytes, because the size of a block is
  the maximum of the request and the growth counter, and the counter is still small.
\<close>

theorem block_sizes_decrease_counterexample:
  "arena_allocations 0 0 0 (fresh_machine []) [Object 100000 1, Object 5000 1]
       [1048576, 2097152]
     = Inr ([1048593, 2097169], [(2097152, 5040), (1048576, 102400)], [])
   \<and> (5040 :: int) < 102400"
  by (simp add: arena_allocations_def run_eval)

text \<open>
  Claim C9, amended. For every sequence of requests that each exceed the remaining
  capacity (a sequence of calls of \<open>ensureSpace\<close> that return), started in a state
  whose counters are as every construction and every growth leave them: each request
  creates one block; a block has at most 2^32 - 1 bytes, at least the overhead-inclusive
  size of its request (so nothing wrapped), and at least the value that
  \<open>fNextHeapAlloc\<close> had before the sequence; \<open>fNextHeapAlloc\<close> has not decreased at
  the end, and the counters are again as a growth leaves them; the sizes of the blocks are
  non-decreasing in the order of creation whenever the overhead-inclusive sizes of the
  requests are non-decreasing; and a request whose overhead-inclusive size exceeds
  2^32 - 1 aborts, in whatever state it is made.
\<close>

theorem growth_block_sizes:
  assumes "grow rs blocks (st, m) = Inr (st', m')"
    and "fNextHeapAlloc st \<le> fYetNextHeapAlloc st \<or> fNextHeapAlloc st = maxSize"
  shows "\<exists>ns. map snd (heap m') = rev ns @ map snd (heap m) \<and> length ns = length rs
     \<and> (\<forall>i<length rs. exact_size (rs ! i) \<le> ns ! i \<and> ns ! i \<le> 4294967295)
     \<and> (\<forall>n\<in>set ns. uint (fNextHeapAlloc st) \<le> n)
     \<and> fNextHeapAlloc st \<le> fNextHeapAlloc st'
     \<and> (fNextHeapAlloc st' \<le> fYetNextHeapAlloc st' \<or> fNextHeapAlloc st' = maxSize)
     \<and> (sorted (map exact_size rs) \<longrightarrow> sorted ns)
     \<and> (\<forall>sz al rs' nb bl sm. 4294967295 < exact_size (sz, al) \<longrightarrow>
           grow ((sz, al) # rs') (nb # bl) sm = Inl Abort)"
proof -
  from grow_inv [OF assms] obtain ns where
    h: "map snd (heap m') = rev ns @ map snd (heap m)" and l: "length ns = length rs"
    and b: "\<forall>i<length rs. exact_size (rs ! i) \<le> ns ! i \<and> ns ! i \<le> 4294967295"
    and lo: "\<forall>lo. (\<forall>r\<in>set rs. lo \<le> exact_size r) \<longrightarrow>
            (\<forall>n\<in>set ns. rounded (max lo (uint (fNextHeapAlloc st))) \<le> n)"
    and c: "uint (fNextHeapAlloc st) \<le> uint (fNextHeapAlloc st')"
    and J: "fNextHeapAlloc st' \<le> fYetNextHeapAlloc st' \<or> fNextHeapAlloc st' = maxSize"
    and so: "sorted (map exact_size rs) \<longrightarrow> sorted ns"
    by (elim exE conjE)
  have pos: "\<forall>r\<in>set rs. 0 \<le> exact_size r"
  proof
    fix r :: "u32 \<times> u32"
    show "0 \<le> exact_size r"
      using uint_ge_0 [of "fst r"] uint_ge_0 [of "snd r"]
      unfolding exact_size_def uint_overhead by linarith
  qed
  have mn: "\<forall>n\<in>set ns. uint (fNextHeapAlloc st) \<le> n"
  proof
    fix n assume "n \<in> set ns"
    with lo pos have "rounded (max 0 (uint (fNextHeapAlloc st))) \<le> n" by blast
    moreover have "max 0 (uint (fNextHeapAlloc st)) \<le> rounded (max 0 (uint (fNextHeapAlloc st)))"
      unfolding rounded_def Let_def by (rule round_ge) simp
    ultimately show "uint (fNextHeapAlloc st) \<le> n" by linarith
  qed
  have c': "fNextHeapAlloc st \<le> fNextHeapAlloc st'" using c by (simp add: word_le_def)
  have ov: "\<forall>sz al rs' nb bl sm. 4294967295 < exact_size (sz, al) \<longrightarrow>
           grow ((sz, al) # rs') (nb # bl) sm = Inl Abort"
  proof (intro allI impI)
    fix sz al :: u32 and rs' :: "(u32 \<times> u32) list" and nb :: addr and bl :: "addr list"
      and sm :: "arena \<times> machine"
    assume big: "4294967295 < exact_size (sz, al)"
    obtain s k where sm: "sm = (s, k)" by (cases sm)
    from big have "4294967295 < uint sz + 26 + (uint al - 1)"
      by (simp add: exact_size_def uint_overhead)
    then have "ensureSpace_size sz al s = Inl Abort"
      by (intro ensureSpace_size_Abort) simp
    then show "grow ((sz, al) # rs') (nb # bl) sm = Inl Abort"
      unfolding sm by (simp add: ensureSpace_def)
  qed
  show ?thesis
    by (rule exI [of _ ns]) (intro conjI h l b mn c' J so ov)
qed

theorem growth_block_sizes_witness:
  "\<exists>st m st' m'.
     SkArenaAlloc 0 0 0 (fresh_machine []) = Inr (st, m)
     \<and> grow [(100, 8), (100, 8), (5000, 16)] [65536, 131072, 262144] (st, m) = Inr (st', m')
     \<and> map exact_size [(100, 8), (100, 8), (5000, 16)] = [133, 133, 5041]
     \<and> map snd (heap m') = rev [1024, 1024, 5056]
     \<and> fNextHeapAlloc st = 1024 \<and> fNextHeapAlloc st' = 3072
     \<and> sorted [1024, 1024, 5056 :: int]
     \<and> 4294967295 < exact_size (0xFFFFFFF0, 1)
     \<and> grow [(0xFFFFFFF0, 1)] [524288] (st', m') = Inl Abort"
proof -
  let ?rs = "[(100, 8), (100, 8), (5000, 16)] :: (u32 \<times> u32) list"
  have "\<exists>st m st' m'. SkArenaAlloc 0 0 0 (fresh_machine []) = Inr (st, m)
     \<and> grow ?rs [65536, 131072, 262144] (st, m) = Inr (st', m')
     \<and> heap m = [] \<and> map snd (heap m') = [5056, 1024, 1024]
     \<and> fNextHeapAlloc st = 1024 \<and> fYetNextHeapAlloc st = 1024 \<and> fNextHeapAlloc st' = 3072"
    by (simp add: run_eval)
  then obtain st m st' m' where
    c: "SkArenaAlloc 0 0 0 (fresh_machine []) = Inr (st, m)"
    and g: "grow ?rs [65536, 131072, 262144] (st, m) = Inr (st', m')"
    and hm: "heap m = []" and hs: "map snd (heap m') = [5056, 1024, 1024]"
    and n0: "fNextHeapAlloc st = 1024" and y0: "fYetNextHeapAlloc st = 1024"
    and n1: "fNextHeapAlloc st' = 3072"
    by (elim exE conjE)
  have J: "fNextHeapAlloc st \<le> fYetNextHeapAlloc st \<or> fNextHeapAlloc st = maxSize"
    by (simp add: n0 y0)
  have ex: "map exact_size ?rs = [133, 133, 5041]"
    by (simp add: exact_size_def uint_overhead)
  have big: "4294967295 < exact_size (0xFFFFFFF0, 1)"
    by (simp add: exact_size_def uint_overhead)
  from growth_block_sizes [OF g J] obtain ns where
    h: "map snd (heap m') = rev ns @ map snd (heap m)"
    and so: "sorted (map exact_size ?rs) \<longrightarrow> sorted ns"
    and ov: "\<forall>sz al rs' nb bl sm. 4294967295 < exact_size (sz, al) \<longrightarrow>
           grow ((sz, al) # rs') (nb # bl) sm = Inl Abort"
    by (elim exE conjE)
  from h have "rev ns = [5056, 1024, 1024]" unfolding hs hm by simp
  then have "rev (rev ns) = rev [5056, 1024, 1024]" by (rule arg_cong)
  then have ns: "ns = [1024, 1024, 5056]" by simp
  from so have s: "sorted [1024, 1024, 5056 :: int]" unfolding ns ex by simp
  have hs': "map snd (heap m') = rev [1024, 1024, 5056]" using hs by simp
  have ab: "grow [(0xFFFFFFF0, 1)] [524288] (st', m') = Inl Abort"
    by (rule ov [rule_format, OF big])
  show ?thesis
    by (intro exI [of _ st] exI [of _ m] exI [of _ st'] exI [of _ m'] conjI c g ex hs' n0 n1 s
        big ab)
qed


section \<open>Allocate, reset, allocate\<close>




end
